theory Spec2Isabelle
  imports Complex_Main "HOL-Library.Product_Lexorder"
begin

section \<open>JSON values, Python dictionaries and errors\<close>

text \<open>
  The program (\<^verbatim>\<open>src/app.py\<close>) keeps its sessions as the dictionaries that
  \<^verbatim>\<open>json.load\<close> returns. A JSON value is \<^verbatim>\<open>None\<close>, a boolean, a number, a
  string, a list or a dictionary. Numbers are rationals: the program only tests them for
  truth (non-zero) and copies them. Characters are HOL characters read as code points
  below 256.
\<close>

datatype jval =
    JNull
  | JBool bool
  | JNum rat
  | JStr string
  | JArr "jval list"
  | JObj "(string \<times> jval) list"

text \<open>The exceptions that the modelled code can raise on a value of the wrong type.\<close>

datatype py_error = TypeError | AttributeError | IndexError

text \<open>A session, a patch and a search result are dictionaries with string keys.\<close>

type_synonym pydict = "string \<rightharpoonup> jval"

definition py_bind :: "py_error + 'a \<Rightarrow> ('a \<Rightarrow> py_error + 'b) \<Rightarrow> py_error + 'b" where
  "py_bind m f = (case m of Inl e \<Rightarrow> Inl e | Inr x \<Rightarrow> f x)"

text \<open>A loop or comprehension that calls a fallible function on each element in order:
  the first exception ends it.\<close>

fun py_filterM :: "('a \<Rightarrow> py_error + bool) \<Rightarrow> 'a list \<Rightarrow> py_error + 'a list" where
  "py_filterM f [] = Inr []"
| "py_filterM f (x # xs) =
     (case f x of
        Inl e \<Rightarrow> Inl e
      | Inr b \<Rightarrow>
          (case py_filterM f xs of
             Inl e \<Rightarrow> Inl e
           | Inr ys \<Rightarrow> Inr (if b then x # ys else ys)))"

fun py_mapM :: "('a \<Rightarrow> py_error + 'b) \<Rightarrow> 'a list \<Rightarrow> py_error + 'b list" where
  "py_mapM f [] = Inr []"
| "py_mapM f (x # xs) =
     (case f x of
        Inl e \<Rightarrow> Inl e
      | Inr y \<Rightarrow> (case py_mapM f xs of Inl e \<Rightarrow> Inl e | Inr ys \<Rightarrow> Inr (y # ys)))"

text \<open>\<^verbatim>\<open>d.get(k)\<close>: \<^verbatim>\<open>None\<close> for a missing key.\<close>

definition py_get :: "pydict \<Rightarrow> string \<Rightarrow> jval" where
  "py_get d k = (case d k of None \<Rightarrow> JNull | Some v \<Rightarrow> v)"

text \<open>\<^verbatim>\<open>d.get(k, default)\<close>.\<close>

definition py_get_or :: "pydict \<Rightarrow> string \<Rightarrow> jval \<Rightarrow> jval" where
  "py_get_or d k dflt = (case d k of None \<Rightarrow> dflt | Some v \<Rightarrow> v)"

text \<open>Python's truth value of a JSON value, as \<^verbatim>\<open>if x\<close>, \<^verbatim>\<open>not x\<close>,
  \<^verbatim>\<open>x and y\<close> and \<^verbatim>\<open>x or y\<close> test it.\<close>

fun truthy :: "jval \<Rightarrow> bool" where
  "truthy JNull = False"
| "truthy (JBool b) = b"
| "truthy (JNum n) = (n \<noteq> 0)"
| "truthy (JStr s) = (s \<noteq> [])"
| "truthy (JArr xs) = (xs \<noteq> [])"
| "truthy (JObj kvs) = (kvs \<noteq> [])"

section \<open>Strings\<close>

text \<open>\<^verbatim>\<open>str.isspace\<close> on one character: the white space of Unicode below 256.\<close>

definition py_isspace :: "char \<Rightarrow> bool" where
  "py_isspace c =
     (let n = (of_char c :: nat)
      in (9 \<le> n \<and> n \<le> 13) \<or> (28 \<le> n \<and> n \<le> 32) \<or> n = 133 \<or> n = 160)"

text \<open>\<^verbatim>\<open>s.strip()\<close>: leading and trailing white space removed.\<close>

definition py_strip :: "string \<Rightarrow> string" where
  "py_strip s = rev (dropWhile py_isspace (rev (dropWhile py_isspace s)))"

definition py_lower_char :: "char \<Rightarrow> char" where
  "py_lower_char c =
     (let n = (of_char c :: nat)
      in if (65 \<le> n \<and> n \<le> 90) \<or> (192 \<le> n \<and> n \<le> 222 \<and> n \<noteq> 215)
         then char_of (n + 32) else c)"

text \<open>\<^verbatim>\<open>s.lower()\<close>.\<close>

definition py_lower :: "string \<Rightarrow> string" where
  "py_lower s = map py_lower_char s"

text \<open>\<^verbatim>\<open>s.split(sep)\<close> for a one-character separator: always at least one part.\<close>

fun py_split :: "char \<Rightarrow> string \<Rightarrow> string list" where
  "py_split sep [] = [[]]"
| "py_split sep (c # cs) =
     (if c = sep then [] # py_split sep cs
      else (case py_split sep cs of
              [] \<Rightarrow> [[c]]
            | p # ps \<Rightarrow> (c # p) # ps))"

fun py_startswith :: "string \<Rightarrow> string \<Rightarrow> bool" where
  "py_startswith s [] = True"
| "py_startswith [] (q # qs) = False"
| "py_startswith (c # cs) (q # qs) = (c = q \<and> py_startswith cs qs)"

text \<open>\<^verbatim>\<open>q in s\<close> on strings: \<open>q\<close> occurs in \<open>s\<close> as a substring.\<close>

fun py_in_str :: "string \<Rightarrow> string \<Rightarrow> bool" where
  "py_in_str q [] = (q = [])"
| "py_in_str q (c # cs) = (py_startswith (c # cs) q \<or> py_in_str q cs)"

text \<open>\<^verbatim>\<open>str(n)\<close> for an integer.\<close>

fun digits_of_nat :: "nat \<Rightarrow> string" where
  "digits_of_nat n =
     (if n < 10 then [''0123456789'' ! n]
      else digits_of_nat (n div 10) @ [''0123456789'' ! (n mod 10)])"

declare digits_of_nat.simps [simp del]

definition py_str_int :: "int \<Rightarrow> string" where
  "py_str_int n = (if n < 0 then CHR ''-'' # digits_of_nat (nat (- n)) else digits_of_nat (nat n))"

section \<open>Host names\<close>

definition HOST_ALIASES :: "string \<rightharpoonup> string" where
  "HOST_ALIASES = map_of
     [(''brass'', ''Braas''),
      (''braas'', ''Braas''),
      (''willie'', ''Joess''),
      (''willie '', ''Joess''),
      (''fiddy '', ''Fiddy''),
      (''joess'', ''Joess'')]"

text \<open>\<^verbatim>\<open>normalise_host(name)\<close>: a false value is returned as it is; \<^verbatim>\<open>name.strip()\<close>
  raises \<^verbatim>\<open>AttributeError\<close> on a true value that is not a string.\<close>

definition normalise_host :: "jval \<Rightarrow> py_error + jval" where
  "normalise_host name =
     (if \<not> truthy name then Inr name
      else (case name of
              JStr s \<Rightarrow>
                Inr (JStr (case HOST_ALIASES (py_lower (py_strip s)) of
                             Some canonical \<Rightarrow> canonical
                           | None \<Rightarrow> py_strip s))
            | _ \<Rightarrow> Inl AttributeError))"

section \<open>Identifiers\<close>

definition ROMAN :: "string list" where
  "ROMAN = [''I'', ''II'', ''III'', ''IV'', ''V'', ''VI'', ''VII'', ''VIII'', ''IX'', ''X'',
            ''XI'', ''XII'']"

text \<open>\<^verbatim>\<open>xs.index(x)\<close>, the position of the first occurrence; \<open>None\<close> where Python
  raises \<^verbatim>\<open>ValueError\<close>, that is when \<open>x\<close> is not in \<open>xs\<close>.\<close>

fun list_index :: "'a list \<Rightarrow> 'a \<Rightarrow> nat option" where
  "list_index [] x = None"
| "list_index (y # ys) x = (if y = x then Some 0 else map_option Suc (list_index ys x))"

text \<open>\<^verbatim>\<open>ROMAN.index(r) + 1 if r in ROMAN else 0\<close>.\<close>

definition roman_to_int :: "string \<Rightarrow> int" where
  "roman_to_int r =
     (if r \<in> set ROMAN
      then (case list_index ROMAN r of Some i \<Rightarrow> int i + 1 | None \<Rightarrow> 0)
      else 0)"

text \<open>\<^verbatim>\<open>ROMAN[n - 1] if 1 <= n <= len(ROMAN) else str(n)\<close>.\<close>

definition int_to_roman :: "int \<Rightarrow> string" where
  "int_to_roman n =
     (if 1 \<le> n \<and> n \<le> int (length ROMAN) then ROMAN ! nat (n - 1) else py_str_int n)"

text \<open>\<^verbatim>\<open>':' in v\<close> for a JSON value: substring on a string, membership on a list, key
  membership on a dictionary, \<^verbatim>\<open>TypeError\<close> on the rest.\<close>

fun py_in_colon :: "jval \<Rightarrow> py_error + bool" where
  "py_in_colon (JStr t) = Inr (CHR '':'' \<in> set t)"
| "py_in_colon (JArr xs) = Inr (JStr '':'' \<in> set xs)"
| "py_in_colon (JObj kvs) = Inr ('':'' \<in> fst ` set kvs)"
| "py_in_colon v = Inl TypeError"

text \<open>The condition of the comprehension in \<^verbatim>\<open>compute_next_id\<close>:
  \<^verbatim>\<open>s.get('id') and ':' in (s.get('id') or '')\<close>.\<close>

definition id_has_sep :: "pydict \<Rightarrow> py_error + bool" where
  "id_has_sep s =
     (if \<not> truthy (py_get s ''id'') then Inr False else py_in_colon (py_get s ''id''))"

definition members_per_round :: int where
  "members_per_round = 7"

text \<open>\<^verbatim>\<open>compute_next_id(sessions)\<close>. \<^verbatim>\<open>last.split(':')\<close> raises
  \<^verbatim>\<open>AttributeError\<close> when the id is a list or a dictionary.\<close>

definition compute_next_id :: "pydict list \<Rightarrow> py_error + string" where
  "compute_next_id sessions_in =
     (case py_filterM id_has_sep sessions_in of
        Inl e \<Rightarrow> Inl e
      | Inr valid \<Rightarrow>
          if valid = [] then Inr ''I:I''
          else (case py_get (last valid) ''id'' of
                  JStr last_id \<Rightarrow>
                    (case py_split CHR '':'' last_id of
                       [r, s] \<Rightarrow>
                         (let ri = roman_to_int r; si = roman_to_int s
                          in if ri = 0 \<or> si = 0 then Inr ''I:I''
                             else if si \<ge> members_per_round
                               then Inr (int_to_roman (ri + 1) @ '':I'')
                               else Inr (r @ '':'' @ int_to_roman (si + 1)))
                     | _ \<Rightarrow> Inr ''I:I'')
                | _ \<Rightarrow> Inl AttributeError))"

section \<open>The stored data\<close>

text \<open>
  The data file holds a dictionary with the list of sessions and the optional list of
  members. Reading and writing the file are not modelled as fallible: a function of the
  program takes the content of the file and returns the content it leaves, with its
  response.
\<close>

record data =
  sessions :: "pydict list"
  members :: jval

text \<open>The body of the loop of \<^verbatim>\<open>load_data\<close>: \<^verbatim>\<open>s['host'] = normalise_host(s.get('host'))\<close>.\<close>

definition load_session :: "pydict \<Rightarrow> py_error + pydict" where
  "load_session s =
     (case normalise_host (py_get s ''host'') of
        Inl e \<Rightarrow> Inl e
      | Inr h \<Rightarrow> Inr (s(''host'' \<mapsto> h)))"

definition load_data :: "data \<Rightarrow> py_error + data" where
  "load_data file =
     (case py_mapM load_session (sessions file) of
        Inl e \<Rightarrow> Inl e
      | Inr ss \<Rightarrow> Inr (file\<lparr>sessions := ss\<rparr>))"

section \<open>Adding a session\<close>

text \<open>The function \<^verbatim>\<open>sort_key\<close> local to \<^verbatim>\<open>add_session\<close>.\<close>

definition session_sort_key :: "pydict \<Rightarrow> py_error + (int \<times> int)" where
  "session_sort_key s =
     (let sid = (if truthy (py_get s ''id'') then py_get s ''id'' else JStr [])
      in case py_in_colon sid of
           Inl e \<Rightarrow> Inl e
         | Inr True \<Rightarrow>
             (case sid of
                JStr t \<Rightarrow>
                  (case py_split CHR '':'' t of
                     p0 # p1 # ps \<Rightarrow> Inr (roman_to_int p0, roman_to_int p1)
                   | _ \<Rightarrow> Inl IndexError)
              | _ \<Rightarrow> Inl AttributeError)
         | Inr False \<Rightarrow> Inr (999, 999))"

text \<open>\<^verbatim>\<open>xs.sort(key=f)\<close>: the keys are computed first, in order, then the list is
  sorted by them, stably; pairs compare lexicographically.\<close>

definition py_sort_by :: "('a \<Rightarrow> py_error + 'k::linorder) \<Rightarrow> 'a list \<Rightarrow> py_error + 'a list" where
  "py_sort_by f xs =
     (case py_mapM f xs of
        Inl e \<Rightarrow> Inl e
      | Inr ks \<Rightarrow> Inr (map snd (sort_key fst (zip ks xs))))"

text \<open>\<^verbatim>\<open>add_session\<close>, with the request's JSON body as \<open>body\<close>: the content the
  file is left with and the session of the response.\<close>

definition add_session :: "data \<Rightarrow> pydict \<Rightarrow> py_error + (data \<times> pydict)" where
  "add_session file body =
     py_bind (load_data file) (\<lambda>d.
     py_bind (normalise_host (py_get body ''host'')) (\<lambda>h.
     py_bind (let session = body(''host'' \<mapsto> h)
              in if \<not> truthy (py_get session ''id'')
                 then py_bind (compute_next_id (sessions d))
                        (\<lambda>i. Inr (session(''id'' \<mapsto> JStr i)))
                 else Inr session) (\<lambda>session.
     py_bind (py_sort_by session_sort_key (sessions d @ [session])) (\<lambda>sorted_sessions.
     Inr (d\<lparr>sessions := sorted_sessions\<rparr>, session)))))"

section \<open>Updating a session\<close>

datatype response = Updated pydict | NotFound

text \<open>The loop of \<^verbatim>\<open>update_session\<close>: the first session whose id equals the given
  string is merged with the patch (\<^verbatim>\<open>s.update(updates)\<close>); \<open>None\<close> when the loop
  ends without a match.\<close>

fun update_loop :: "pydict list \<Rightarrow> string \<Rightarrow> pydict \<Rightarrow> (pydict list \<times> pydict) option" where
  "update_loop [] session_id updates = None"
| "update_loop (s # ss) session_id updates =
     (if py_get s ''id'' = JStr session_id then Some ((s ++ updates) # ss, s ++ updates)
      else (case update_loop ss session_id updates of
              None \<Rightarrow> None
            | Some (ss', s') \<Rightarrow> Some (s # ss', s')))"

text \<open>\<^verbatim>\<open>update_session\<close>: the file is written only when a session matched.\<close>

definition update_session :: "data \<Rightarrow> string \<Rightarrow> pydict \<Rightarrow> py_error + (data \<times> response)" where
  "update_session file session_id updates =
     py_bind (load_data file) (\<lambda>d.
       case update_loop (sessions d) session_id updates of
         Some (ss', s') \<Rightarrow> Inr (d\<lparr>sessions := ss'\<rparr>, Updated s')
       | None \<Rightarrow> Inr (file, NotFound))"

section \<open>Searching\<close>

text \<open>\<^verbatim>\<open>whisky.lower()\<close> on a JSON value.\<close>

definition py_lower_val :: "jval \<Rightarrow> py_error + string" where
  "py_lower_val v = (case v of JStr w \<Rightarrow> Inr (py_lower w) | _ \<Rightarrow> Inl AttributeError)"

text \<open>The first loop of \<^verbatim>\<open>search_whisky\<close>, over the sessions.\<close>

fun search_local ::
  "string \<Rightarrow> pydict list \<Rightarrow> string set \<times> pydict list \<Rightarrow> py_error + (string set \<times> pydict list)" where
  "search_local ql [] (seen, results) = Inr (seen, results)"
| "search_local ql (s # ss) (seen, results) =
     (let whisky = (if truthy (py_get s ''whisky'') then py_get s ''whisky'' else JStr [])
      in case py_lower_val whisky of
           Inl e \<Rightarrow> Inl e
         | Inr wl \<Rightarrow>
             if py_in_str ql wl \<and> wl \<notin> seen
             then search_local ql ss
                    (insert wl seen,
                     results @
                       [[''whisky'' \<mapsto> whisky,
                         ''region'' \<mapsto> py_get_or s ''region'' (JStr []),
                         ''rrp'' \<mapsto> py_get s ''rrp'',
                         ''image_url'' \<mapsto> py_get s ''image_url'',
                         ''source'' \<mapsto> JStr ''local'']])
             else search_local ql ss (seen, results))"

text \<open>The second loop, over the library.\<close>

fun search_library ::
  "string \<Rightarrow> pydict list \<Rightarrow> string set \<times> pydict list \<Rightarrow> py_error + (string set \<times> pydict list)" where
  "search_library ql [] (seen, results) = Inr (seen, results)"
| "search_library ql (entry # es) (seen, results) =
     (let whisky = py_get_or entry ''whisky'' (JStr [])
      in case py_lower_val whisky of
           Inl e \<Rightarrow> Inl e
         | Inr wl \<Rightarrow>
             if py_in_str ql wl \<and> wl \<notin> seen
             then search_library ql es
                    (insert wl seen,
                     results @
                       [[''whisky'' \<mapsto> whisky,
                         ''region'' \<mapsto> py_get_or entry ''region'' (JStr []),
                         ''type'' \<mapsto> py_get_or entry ''type'' (JStr []),
                         ''rrp'' \<mapsto> JNull,
                         ''image_url'' \<mapsto> JNull,
                         ''source'' \<mapsto> JStr ''library'']])
             else search_library ql es (seen, results))"

text \<open>\<^verbatim>\<open>search_whisky\<close>, with the request's parameter \<open>q\<close> and the content of the
  library file (the empty list when it cannot be read).\<close>

definition search_whisky :: "data \<Rightarrow> pydict list \<Rightarrow> string \<Rightarrow> py_error + pydict list" where
  "search_whisky file library q_arg =
     (let q = py_strip q_arg
      in if q = [] \<or> length q < 2 then Inr []
         else
           py_bind (load_data file) (\<lambda>d.
           py_bind (search_local (py_lower q) (sessions d) ({}, [])) (\<lambda>acc.
           py_bind (search_library (py_lower q) library acc) (\<lambda>(seen, results).
           Inr (take 10 results)))))"

section \<open>Enrichment\<close>

text \<open>
  What \<^verbatim>\<open>lookup_dan_murphys\<close> returns is a dictionary with exactly the keys
  \<^verbatim>\<open>dm_url\<close>, \<^verbatim>\<open>price\<close> and \<^verbatim>\<open>image_url\<close>, or \<^verbatim>\<open>None\<close>. The lookup
  itself asks a web site: it is a parameter \<open>lookup\<close> of the model, from the query
  string to the optional result.
\<close>

record lookup_result =
  dm_url :: jval
  price :: jval
  image_url :: jval

text \<open>The two \<^verbatim>\<open>continue\<close> tests of the loop of \<^verbatim>\<open>enrich_all\<close>, negated: the
  session is looked up.\<close>

definition eligible :: "pydict \<Rightarrow> bool" where
  "eligible s =
     (truthy (py_get s ''whisky'') \<and>
      \<not> (truthy (py_get s ''image_url'') \<and> truthy (py_get s ''rrp'') \<and>
         truthy (py_get s ''dm_url'')))"

text \<open>The three assignments under \<^verbatim>\<open>if result:\<close>.\<close>

definition enrich_merge :: "pydict \<Rightarrow> lookup_result \<Rightarrow> pydict" where
  "enrich_merge s result =
     (let s1 = (if \<not> truthy (py_get s ''image_url'') \<and> truthy (image_url result)
                then s(''image_url'' \<mapsto> image_url result) else s);
          s2 = (if \<not> truthy (py_get s1 ''rrp'') \<and> truthy (price result)
                then s1(''rrp'' \<mapsto> price result) else s1)
      in if truthy (dm_url result) then s2(''dm_url'' \<mapsto> dm_url result) else s2)"

text \<open>The loop of \<^verbatim>\<open>enrich_all\<close> with its two counters. The query is
  \<^verbatim>\<open>s['whisky']\<close>; quoting it for the URL raises \<^verbatim>\<open>TypeError\<close> when it is not a
  string.\<close>

fun enrich_loop ::
  "(string \<Rightarrow> lookup_result option) \<Rightarrow> pydict list \<Rightarrow> nat \<Rightarrow> nat
     \<Rightarrow> py_error + (pydict list \<times> nat \<times> nat)" where
  "enrich_loop lookup [] enriched failed = Inr ([], enriched, failed)"
| "enrich_loop lookup (s # ss) enriched failed =
     (if \<not> eligible s
      then py_bind (enrich_loop lookup ss enriched failed)
             (\<lambda>(ss', e, f). Inr (s # ss', e, f))
      else (case py_get s ''whisky'' of
              JStr w \<Rightarrow>
                (case lookup w of
                   Some result \<Rightarrow>
                     py_bind (enrich_loop lookup ss (enriched + 1) failed)
                       (\<lambda>(ss', e, f). Inr (enrich_merge s result # ss', e, f))
                 | None \<Rightarrow>
                     py_bind (enrich_loop lookup ss enriched (failed + 1))
                       (\<lambda>(ss', e, f). Inr (s # ss', e, f)))
            | _ \<Rightarrow> Inl TypeError))"

text \<open>\<^verbatim>\<open>enrich_all\<close>: the content the file is left with, and the two counts of the
  response.\<close>

definition enrich_all ::
  "(string \<Rightarrow> lookup_result option) \<Rightarrow> data \<Rightarrow> py_error + (data \<times> nat \<times> nat)" where
  "enrich_all lookup file =
     py_bind (load_data file) (\<lambda>d.
     py_bind (enrich_loop lookup (sessions d) 0 0) (\<lambda>(ss', e, f).
     Inr (d\<lparr>sessions := ss'\<rparr>, e, f)))"

section \<open>Host names: properties\<close>

lemma dropWhile_rev_dropWhile:
  "dropWhile P (rev (dropWhile P (rev (dropWhile P s)))) = rev (dropWhile P (rev (dropWhile P s)))"
proof (cases "dropWhile P s")
  case Nil
  show ?thesis unfolding Nil by simp
next
  case (Cons c cs)
  then have c: "\<not> P c"
    by (metis hd_dropWhile list.sel(1) list.distinct(1))
  have "rev (dropWhile P (rev (c # cs))) = c # rev (dropWhile P (rev cs))"
    using c by (simp add: dropWhile_append split: if_splits)
  with Cons c show ?thesis by simp
qed

lemma py_strip_idem: "py_strip (py_strip s) = py_strip s"
  by (simp add: py_strip_def dropWhile_rev_dropWhile)

lemma HOST_ALIASES_ran:
  "HOST_ALIASES k = Some v \<Longrightarrow> v = ''Braas'' \<or> v = ''Joess'' \<or> v = ''Fiddy''"
  by (auto simp: HOST_ALIASES_def split: if_splits)

lemma normalise_canonical:
  "v = ''Braas'' \<or> v = ''Joess'' \<or> v = ''Fiddy'' \<Longrightarrow> normalise_host (JStr v) = Inr (JStr v)"
  by (auto simp: normalise_host_def HOST_ALIASES_def py_strip_def py_isspace_def
      py_lower_def py_lower_char_def Let_def)

lemma normalise_host_str:
  "\<exists>t. normalise_host (JStr s) = Inr (JStr t) \<and> normalise_host (JStr t) = Inr (JStr t)"
proof (cases "s = []")
  case True
  then show ?thesis by (simp add: normalise_host_def)
next
  case False
  show ?thesis
  proof (cases "HOST_ALIASES (py_lower (py_strip s))")
    case (Some v)
    then have "normalise_host (JStr s) = Inr (JStr v)"
      using False by (simp add: normalise_host_def)
    moreover have "normalise_host (JStr v) = Inr (JStr v)"
      using Some by (intro normalise_canonical HOST_ALIASES_ran)
    ultimately show ?thesis by blast
  next
    case None
    then have 1: "normalise_host (JStr s) = Inr (JStr (py_strip s))"
      using False by (simp add: normalise_host_def)
    have "normalise_host (JStr (py_strip s)) = Inr (JStr (py_strip s))"
      using None by (simp add: normalise_host_def py_strip_idem)
    with 1 show ?thesis by blast
  qed
qed

lemma normalise_host_Inr_fix: "normalise_host x = Inr y \<Longrightarrow> normalise_host y = Inr y"
proof (cases "truthy x")
  case False
  assume "normalise_host x = Inr y"
  with False have "y = x" by (simp add: normalise_host_def)
  with False show ?thesis by (simp add: normalise_host_def)
next
  case True
  assume a: "normalise_host x = Inr y"
  with True obtain s where x: "x = JStr s"
    by (cases x) (auto simp: normalise_host_def)
  from normalise_host_str [of s] a x show ?thesis by auto
qed

text \<open>
  Claim C5. Normalising a host name twice gives what normalising it once gives, for every
  JSON value: where the first call raises, so does the composition; where it returns, the
  result is a fixed point of \<open>normalise_host\<close>. On every string (empty, blank, aliased,
  mixed-case or untracked) the call returns a string that a second call leaves as it is,
  and \<^verbatim>\<open>None\<close> is returned as it is.
\<close>

theorem normalise_host_idempotent:
  "py_bind (normalise_host x) normalise_host = normalise_host x \<and>
   (\<exists>t. normalise_host (JStr s) = Inr (JStr t) \<and> normalise_host (JStr t) = Inr (JStr t)) \<and>
   normalise_host JNull = Inr JNull"
proof -
  have "py_bind (normalise_host x) normalise_host = normalise_host x"
    by (cases "normalise_host x") (simp_all add: py_bind_def normalise_host_Inr_fix)
  moreover have "normalise_host JNull = Inr JNull"
    by (simp add: normalise_host_def)
  ultimately show ?thesis using normalise_host_str by blast
qed

section \<open>Loading and updating: properties\<close>

lemma py_mapM_Inr: "py_mapM f xs = Inr ys \<longleftrightarrow> list_all2 (\<lambda>x y. f x = Inr y) xs ys"
proof (induction xs arbitrary: ys)
  case Nil
  show ?case by auto
next
  case (Cons x xs)
  show ?case
    by (cases ys) (auto simp: Cons.IH [symmetric] split: sum.splits)
qed

lemma load_session_id: "load_session s = Inr s' \<Longrightarrow> py_get s' k = (if k = ''host'' then py_get s' ''host'' else py_get s k)"
  by (auto simp: load_session_def py_get_def split: sum.splits)

lemma load_data_sessions:
  "load_data file = Inr d \<longleftrightarrow>
     (list_all2 (\<lambda>s s'. load_session s = Inr s') (sessions file) (sessions d) \<and> d = file\<lparr>sessions := sessions d\<rparr>)"
  by (cases "py_mapM load_session (sessions file)")
     (auto simp: load_data_def py_mapM_Inr [symmetric])

lemma load_data_ids:
  assumes "load_data file = Inr d"
  shows "map (\<lambda>s. py_get s ''id'') (sessions d) = map (\<lambda>s. py_get s ''id'') (sessions file)"
proof -
  from assms have "list_all2 (\<lambda>s s'. load_session s = Inr s') (sessions file) (sessions d)"
    by (simp add: load_data_sessions)
  then have "list_all2 (\<lambda>s s'. py_get s' ''id'' = py_get s ''id'') (sessions file) (sessions d)"
    by (rule list_all2_mono) (simp add: load_session_id)
  then show ?thesis
    by (induction rule: list_all2_induct) auto
qed

lemma update_loop_None:
  "update_loop ss sid u = None \<longleftrightarrow> (\<forall>s\<in>set ss. py_get s ''id'' \<noteq> JStr sid)"
  by (induction ss) (auto split: option.splits)

lemma update_loop_first:
  "i < length ss \<Longrightarrow> py_get (ss ! i) ''id'' = JStr sid \<Longrightarrow>
   \<forall>j<i. py_get (ss ! j) ''id'' \<noteq> JStr sid \<Longrightarrow>
   update_loop ss sid u = Some (ss[i := ss ! i ++ u], ss ! i ++ u)"
proof (induction ss arbitrary: i)
  case Nil
  then show ?case by simp
next
  case (Cons s ss)
  show ?case
  proof (cases i)
    case 0
    with Cons.prems show ?thesis by simp
  next
    case (Suc k)
    with Cons.prems have "py_get s ''id'' \<noteq> JStr sid" by auto
    moreover have "update_loop ss sid u = Some (ss[k := ss ! k ++ u], ss ! k ++ u)"
      using Cons.prems Suc by (intro Cons.IH) auto
    ultimately show ?thesis using Suc by simp
  qed
qed

text \<open>
  Claim C8. \<open>update_session\<close> answers \<open>NotFound\<close> exactly when the file loads and no
  stored session has an id equal, as a string, to the given id; the comparison is
  equality of JSON values with the given string, no decoding. Whenever it answers
  \<open>NotFound\<close>, the content of the file is the one it started with.
\<close>

theorem update_not_found_iff:
  "((\<exists>file'. update_session file sid u = Inr (file', NotFound)) \<longleftrightarrow>
      (\<exists>d. load_data file = Inr d) \<and> (\<forall>s\<in>set (sessions file). py_get s ''id'' \<noteq> JStr sid)) \<and>
   (update_session file sid u = Inr (file', NotFound) \<longrightarrow> file' = file)"
proof -
  have ids: "(\<forall>s\<in>set (sessions d). py_get s ''id'' \<noteq> JStr sid) \<longleftrightarrow>
             (\<forall>s\<in>set (sessions file). py_get s ''id'' \<noteq> JStr sid)"
    if "load_data file = Inr d" for d
  proof -
    have "(\<forall>s\<in>set (sessions d). py_get s ''id'' \<noteq> JStr sid) \<longleftrightarrow>
          JStr sid \<notin> set (map (\<lambda>s. py_get s ''id'') (sessions d))"
      by force
    also have "\<dots> \<longleftrightarrow> JStr sid \<notin> set (map (\<lambda>s. py_get s ''id'') (sessions file))"
      by (simp only: load_data_ids [OF that])
    also have "\<dots> \<longleftrightarrow> (\<forall>s\<in>set (sessions file). py_get s ''id'' \<noteq> JStr sid)"
      by force
    finally show ?thesis .
  qed
  have a: "(\<exists>file'. update_session file sid u = Inr (file', NotFound)) \<longleftrightarrow>
      (\<exists>d. load_data file = Inr d) \<and> (\<forall>s\<in>set (sessions file). py_get s ''id'' \<noteq> JStr sid)"
  proof (cases "load_data file")
    case (Inl e)
    then show ?thesis by (simp add: update_session_def py_bind_def)
  next
    case (Inr d)
    then show ?thesis
      using ids [OF Inr] update_loop_None [of "sessions d" sid u]
      by (auto simp: update_session_def py_bind_def split: option.splits)
  qed
  have b: "update_session file sid u = Inr (file', NotFound) \<longrightarrow> file' = file"
    by (auto simp: update_session_def py_bind_def split: sum.splits option.splits)
  from a b show ?thesis by blast
qed

theorem update_not_found_iff_witness:
  "update_session \<lparr>sessions = [[''id'' \<mapsto> JStr ''I:I'']], members = JNull\<rparr> ''i:i'' Map.empty
     = Inr (\<lparr>sessions = [[''id'' \<mapsto> JStr ''I:I'']], members = JNull\<rparr>, NotFound)"
proof -
  let ?file = "\<lparr>sessions = [[''id'' \<mapsto> JStr ''I:I'']], members = JNull\<rparr>"
  have l: "\<exists>d. load_data ?file = Inr d"
    by (simp add: load_data_def load_session_def normalise_host_def py_get_def)
  have n: "\<forall>s\<in>set (sessions ?file). py_get s ''id'' \<noteq> JStr ''i:i''"
    by (simp add: py_get_def)
  from l n obtain file' where u: "update_session ?file ''i:i'' Map.empty = Inr (file', NotFound)"
    using update_not_found_iff [of ?file "''i:i''" Map.empty] by blast
  then have "file' = ?file"
    using update_not_found_iff [of ?file "''i:i''" Map.empty file'] by blast
  with u show ?thesis by simp
qed

lemma load_session_Inr:
  "load_session s = Inr s' \<longleftrightarrow>
     (\<exists>h. normalise_host (py_get s ''host'') = Inr h \<and> s' = s(''host'' \<mapsto> h))"
  by (auto simp: load_session_def split: sum.splits)

lemma load_data_nth:
  assumes "load_data file = Inr d"
  shows "length (sessions d) = length (sessions file)"
    and "j < length (sessions file) \<Longrightarrow> load_session (sessions file ! j) = Inr (sessions d ! j)"
    and "members d = members file"
proof -
  from assms have l: "list_all2 (\<lambda>s s'. load_session s = Inr s') (sessions file) (sessions d)"
    and d: "d = file\<lparr>sessions := sessions d\<rparr>"
    by (simp_all add: load_data_sessions)
  from l show "length (sessions d) = length (sessions file)"
    by (simp add: list_all2_lengthD)
  from l show "j < length (sessions file) \<Longrightarrow> load_session (sessions file ! j) = Inr (sessions d ! j)"
    by (auto dest: list_all2_nthD)
  from d show "members d = members file"
    by (metis data.select_convs(2) data.surjective data.update_convs(1))
qed

text \<open>
  Claim C10, as stated, fails: \<open>update_session\<close> writes back what \<open>load_data\<close>
  returned, and \<open>load_data\<close> normalises the host of every session. Here two stored
  sessions share the id \<^verbatim>\<open>I:I\<close>; the patch goes to the first, and the second, the
  later duplicate, is stored with the host \<^verbatim>\<open>brass\<close> and written back with the host
  \<^verbatim>\<open>Braas\<close>.
\<close>

theorem update_changes_other_record:
  "\<exists>file' r. update_session
      \<lparr>sessions = [[''id'' \<mapsto> JStr ''I:I'', ''host'' \<mapsto> JStr ''Braas''],
                   [''id'' \<mapsto> JStr ''I:I'', ''host'' \<mapsto> JStr ''brass'']],
       members = JNull\<rparr>
      ''I:I'' [''whisky'' \<mapsto> JStr ''Oban''] = Inr (file', r) \<and>
     py_get (sessions file' ! 1) ''host'' = JStr ''Braas'' \<and>
     py_get ([[''id'' \<mapsto> JStr ''I:I'', ''host'' \<mapsto> JStr ''Braas''],
              [''id'' \<mapsto> JStr ''I:I'', ''host'' \<mapsto> JStr ''brass'']] ! 1) ''host'' = JStr ''brass''"
  by (simp add: update_session_def py_bind_def load_data_def load_session_def normalise_host_def
      py_get_def HOST_ALIASES_def py_strip_def py_isspace_def py_lower_def py_lower_char_def)

text \<open>
  Claim C10, amended. When the file loads and the session at position \<open>i\<close> is the first
  whose id equals the given string, \<open>update_session\<close> merges the patch into that session
  only. Every other session, later sessions with the same id included, is written back
  as \<open>load_data\<close> delivers it: with its host replaced by the normalised host and nothing
  else changed, hence unchanged when its stored host is already a fixed point of
  \<open>normalise_host\<close>. The number of sessions and the members are unchanged.
\<close>

theorem update_first_match_only:
  assumes "load_data file = Inr d"
    and "i < length (sessions file)"
    and "py_get (sessions file ! i) ''id'' = JStr sid"
    and "\<forall>j<i. py_get (sessions file ! j) ''id'' \<noteq> JStr sid"
  shows "\<exists>file'. update_session file sid u = Inr (file', Updated (sessions d ! i ++ u)) \<and>
           length (sessions file') = length (sessions file) \<and>
           members file' = members file \<and>
           sessions file' ! i = sessions d ! i ++ u \<and>
           (\<forall>j<length (sessions file). j \<noteq> i \<longrightarrow>
              (\<exists>h. normalise_host (py_get (sessions file ! j) ''host'') = Inr h \<and>
                   sessions file' ! j = (sessions file ! j)(''host'' \<mapsto> h)) \<and>
              (\<forall>h. (sessions file ! j) ''host'' = Some h \<and> normalise_host h = Inr h \<longrightarrow>
                   sessions file' ! j = sessions file ! j))"
proof -
  let ?ss = "sessions d"
  let ?file' = "d\<lparr>sessions := ?ss[i := ?ss ! i ++ u]\<rparr>"
  note nth = load_data_nth [OF assms(1)]
  have ids: "py_get (?ss ! j) ''id'' = py_get (sessions file ! j) ''id''"
    if "j < length (sessions file)" for j
    using nth(2) [OF that] by (simp add: load_session_id)
  have "update_loop ?ss sid u = Some (?ss[i := ?ss ! i ++ u], ?ss ! i ++ u)"
    using assms(2-4) nth(1) by (intro update_loop_first) (simp_all add: ids)
  then have 1: "update_session file sid u = Inr (?file', Updated (?ss ! i ++ u))"
    using assms(1) by (simp add: update_session_def py_bind_def)
  have 2: "length (sessions ?file') = length (sessions file)"
    by (simp add: nth(1))
  have 3: "members ?file' = members file"
    by (simp add: nth(3))
  have 4: "sessions ?file' ! i = ?ss ! i ++ u"
    using assms(2) nth(1) by simp
  have 5: "\<exists>h. normalise_host (py_get (sessions file ! j) ''host'') = Inr h \<and>
                   sessions ?file' ! j = (sessions file ! j)(''host'' \<mapsto> h)"
    if "j < length (sessions file)" "j \<noteq> i" for j
    using nth(2) [OF that(1)] that(2) by (auto simp: load_session_Inr)
  have 6: "sessions ?file' ! j = sessions file ! j"
    if "j < length (sessions file)" "j \<noteq> i" "(sessions file ! j) ''host'' = Some h"
      "normalise_host h = Inr h" for j h
  proof -
    from that(3) have "py_get (sessions file ! j) ''host'' = h"
      by (simp add: py_get_def)
    with 5 [OF that(1,2)] that(4) have "sessions ?file' ! j = (sessions file ! j)(''host'' \<mapsto> h)"
      by auto
    also have "\<dots> = sessions file ! j"
      using that(3) by (rule map_upd_triv)
    finally show ?thesis .
  qed
  from 1 2 3 4 5 6 show ?thesis by blast
qed

theorem update_first_match_only_witness:
  "\<exists>file'. update_session
      \<lparr>sessions = [[''id'' \<mapsto> JStr ''I:I'', ''host'' \<mapsto> JStr ''Braas''],
                   [''id'' \<mapsto> JStr ''I:I'', ''host'' \<mapsto> JStr ''Fiddy '']],
       members = JNull\<rparr>
      ''I:I'' [''whisky'' \<mapsto> JStr ''Oban'']
     = Inr (file', Updated [''id'' \<mapsto> JStr ''I:I'', ''host'' \<mapsto> JStr ''Braas'', ''whisky'' \<mapsto> JStr ''Oban'']) \<and>
     sessions file' ! 0 = [''id'' \<mapsto> JStr ''I:I'', ''host'' \<mapsto> JStr ''Braas'', ''whisky'' \<mapsto> JStr ''Oban''] \<and>
     sessions file' ! 1 = [''id'' \<mapsto> JStr ''I:I'', ''host'' \<mapsto> JStr ''Fiddy'']"
proof -
  let ?a = "[''id'' \<mapsto> JStr ''I:I'', ''host'' \<mapsto> JStr ''Braas'']"
  let ?b = "[''id'' \<mapsto> JStr ''I:I'', ''host'' \<mapsto> JStr ''Fiddy '']"
  let ?b' = "[''id'' \<mapsto> JStr ''I:I'', ''host'' \<mapsto> JStr ''Fiddy'']"
  let ?file = "\<lparr>sessions = [?a, ?b], members = JNull\<rparr>"
  let ?d = "\<lparr>sessions = [?a, ?b'], members = JNull\<rparr>"
  let ?u = "[''whisky'' \<mapsto> JStr ''Oban'']"
  have n: "normalise_host (JStr ''Fiddy '') = Inr (JStr ''Fiddy'')"
    by (simp add: normalise_host_def HOST_ALIASES_def py_strip_def py_isspace_def
      py_lower_def py_lower_char_def)
  have l: "load_data ?file = Inr ?d"
    by (simp add: load_data_def load_session_def normalise_host_def
      py_get_def HOST_ALIASES_def py_strip_def py_isspace_def py_lower_def py_lower_char_def)
  have i: "(0::nat) < length (sessions ?file)" by simp
  have m: "py_get (sessions ?file ! 0) ''id'' = JStr ''I:I''" by (simp add: py_get_def)
  have f: "\<forall>j<(0::nat). py_get (sessions ?file ! j) ''id'' \<noteq> JStr ''I:I''" by simp
  from update_first_match_only [OF l i m f, of ?u]
  obtain file' where
    1: "update_session ?file ''I:I'' ?u = Inr (file', Updated (sessions ?d ! 0 ++ ?u))"
    and 2: "sessions file' ! 0 = sessions ?d ! 0 ++ ?u"
    and 3: "\<forall>j<length (sessions ?file). j \<noteq> 0 \<longrightarrow>
              (\<exists>h. normalise_host (py_get (sessions ?file ! j) ''host'') = Inr h \<and>
                   sessions file' ! j = (sessions ?file ! j)(''host'' \<mapsto> h))"
    by blast
  have e: "sessions ?d ! 0 ++ ?u = [''id'' \<mapsto> JStr ''I:I'', ''host'' \<mapsto> JStr ''Braas'', ''whisky'' \<mapsto> JStr ''Oban'']"
    by (simp add: map_add_def fun_eq_iff)
  from 3 have "\<exists>h. normalise_host (py_get (sessions ?file ! 1) ''host'') = Inr h \<and>
                   sessions file' ! 1 = (sessions ?file ! 1)(''host'' \<mapsto> h)"
    by simp
  then have "sessions file' ! 1 = ?b'"
    by (simp add: py_get_def n)
  with 1 2 e show ?thesis by auto
qed

section \<open>Enrichment: properties\<close>

text \<open>
  Claim C4. For a session that is looked up (it is eligible and its whisky is a string)
  and a lookup that returns a result, the step of the loop counts the session as enriched
  and merges field by field: \<^verbatim>\<open>image_url\<close> and \<^verbatim>\<open>rrp\<close> keep the session's value when
  it is true (non-empty), and take the lookup's value only when the session's is false and
  the lookup's is true; \<^verbatim>\<open>dm_url\<close> takes the lookup's value whenever that is true,
  whatever the session held. No other key changes.
\<close>

theorem enrich_merge_asymmetric:
  assumes "eligible s" and "py_get s ''whisky'' = JStr w" and "lookup w = Some r"
  shows "\<exists>s'. enrich_loop lookup [s] e f = Inr ([s'], e + 1, f) \<and>
           py_get s' ''image_url'' =
             (if truthy (py_get s ''image_url'') then py_get s ''image_url''
              else if truthy (image_url r) then image_url r else py_get s ''image_url'') \<and>
           py_get s' ''rrp'' =
             (if truthy (py_get s ''rrp'') then py_get s ''rrp''
              else if truthy (price r) then price r else py_get s ''rrp'') \<and>
           py_get s' ''dm_url'' = (if truthy (dm_url r) then dm_url r else py_get s ''dm_url'') \<and>
           (\<forall>k. k \<noteq> ''image_url'' \<and> k \<noteq> ''rrp'' \<and> k \<noteq> ''dm_url'' \<longrightarrow> s' k = s k)"
proof -
  have step: "enrich_loop lookup [s] e f = Inr ([enrich_merge s r], e + 1, f)"
    using assms by (simp add: py_bind_def)
  have img: "py_get (enrich_merge s r) ''image_url'' =
             (if truthy (py_get s ''image_url'') then py_get s ''image_url''
              else if truthy (image_url r) then image_url r else py_get s ''image_url'')"
    by (simp add: enrich_merge_def py_get_def Let_def)
  have rrp: "py_get (enrich_merge s r) ''rrp'' =
             (if truthy (py_get s ''rrp'') then py_get s ''rrp''
              else if truthy (price r) then price r else py_get s ''rrp'')"
    by (simp add: enrich_merge_def py_get_def Let_def)
  have dm: "py_get (enrich_merge s r) ''dm_url'' =
             (if truthy (dm_url r) then dm_url r else py_get s ''dm_url'')"
    by (simp add: enrich_merge_def py_get_def Let_def)
  have rest: "\<forall>k. k \<noteq> ''image_url'' \<and> k \<noteq> ''rrp'' \<and> k \<noteq> ''dm_url'' \<longrightarrow> enrich_merge s r k = s k"
    by (simp add: enrich_merge_def Let_def)
  from step img rrp dm rest show ?thesis by blast
qed

theorem enrich_merge_asymmetric_witness:
  "\<exists>s'. enrich_loop (\<lambda>w. Some \<lparr>dm_url = JStr ''new'', price = JNum 95, image_url = JStr ''Y''\<rparr>)
           [[''whisky'' \<mapsto> JStr ''Oban 14'', ''image_url'' \<mapsto> JStr ''X'', ''dm_url'' \<mapsto> JStr ''old'']] 0 0
         = Inr ([s'], 1, 0) \<and>
        py_get s' ''image_url'' = JStr ''X'' \<and>
        py_get s' ''rrp'' = JNum 95 \<and>
        py_get s' ''dm_url'' = JStr ''new'' \<and>
        py_get s' ''whisky'' = JStr ''Oban 14''"
proof -
  let ?s = "[''whisky'' \<mapsto> JStr ''Oban 14'', ''image_url'' \<mapsto> JStr ''X'', ''dm_url'' \<mapsto> JStr ''old'']"
  let ?r = "\<lparr>dm_url = JStr ''new'', price = JNum 95, image_url = JStr ''Y''\<rparr>"
  have e: "eligible ?s" by (simp add: eligible_def py_get_def)
  have w: "py_get ?s ''whisky'' = JStr ''Oban 14''" by (simp add: py_get_def)
  have l: "(\<lambda>w. Some ?r) ''Oban 14'' = Some ?r" by simp
  from enrich_merge_asymmetric [of ?s "''Oban 14''" "\<lambda>w. Some ?r" ?r 0 0, OF e w l]
  obtain s' where 1: "enrich_loop (\<lambda>w. Some ?r) [?s] 0 0 = Inr ([s'], 0 + 1, 0)"
    and 2: "py_get s' ''image_url'' =
             (if truthy (py_get ?s ''image_url'') then py_get ?s ''image_url''
              else if truthy (image_url ?r) then image_url ?r else py_get ?s ''image_url'')"
    and 3: "py_get s' ''rrp'' =
             (if truthy (py_get ?s ''rrp'') then py_get ?s ''rrp''
              else if truthy (price ?r) then price ?r else py_get ?s ''rrp'')"
    and 4: "py_get s' ''dm_url'' = (if truthy (dm_url ?r) then dm_url ?r else py_get ?s ''dm_url'')"
    and 5: "\<forall>k. k \<noteq> ''image_url'' \<and> k \<noteq> ''rrp'' \<and> k \<noteq> ''dm_url'' \<longrightarrow> s' k = ?s k"
    by blast
  from 2 have r2: "py_get s' ''image_url'' = JStr ''X''" by (simp add: py_get_def)
  from 3 have r3: "py_get s' ''rrp'' = JNum 95" by (simp add: py_get_def)
  from 4 have r4: "py_get s' ''dm_url'' = JStr ''new''" by (simp add: py_get_def)
  from 5 have "s' ''whisky'' = ?s ''whisky''" by simp
  then have r5: "py_get s' ''whisky'' = JStr ''Oban 14''" by (simp add: py_get_def)
  from 1 r2 r3 r4 r5 show ?thesis by auto
qed

lemma enrich_loop_counts:
  "enrich_loop lookup ss e0 f0 = Inr (ss', e, f) \<Longrightarrow>
     e + f = e0 + f0 + length (filter eligible ss)"
proof (induction ss arbitrary: e0 f0 ss' e f)
  case Nil
  then show ?case by simp
next
  case (Cons s ss)
  show ?case
  proof (cases "eligible s")
    case False
    with Cons.prems obtain ss1 where "enrich_loop lookup ss e0 f0 = Inr (ss1, e, f)"
      by (auto simp: py_bind_def split: sum.splits)
    from Cons.IH [OF this] False show ?thesis by simp
  next
    case True
    with Cons.prems obtain w where w: "py_get s ''whisky'' = JStr w"
      by (cases "py_get s ''whisky''") auto
    show ?thesis
    proof (cases "lookup w")
      case None
      with Cons.prems True w obtain ss1 where "enrich_loop lookup ss e0 (f0 + 1) = Inr (ss1, e, f)"
        by (auto simp: py_bind_def split: sum.splits)
      from Cons.IH [OF this] True show ?thesis by simp
    next
      case (Some r)
      with Cons.prems True w obtain ss1 where "enrich_loop lookup ss (e0 + 1) f0 = Inr (ss1, e, f)"
        by (auto simp: py_bind_def split: sum.splits)
      from Cons.IH [OF this] True show ?thesis by simp
    qed
  qed
qed

lemma enrich_loop_total:
  "\<forall>s\<in>set ss. eligible s \<longrightarrow> (\<exists>w. py_get s ''whisky'' = JStr w) \<Longrightarrow>
     \<exists>ss' e f. enrich_loop lookup ss e0 f0 = Inr (ss', e, f)"
proof (induction ss arbitrary: e0 f0)
  case Nil
  then show ?case by simp
next
  case (Cons s ss)
  then have ih: "\<exists>ss' e f. enrich_loop lookup ss e1 f1 = Inr (ss', e, f)" for e1 f1
    by simp
  show ?case
  proof (cases "eligible s")
    case False
    with ih [of e0 f0] show ?thesis by (auto simp: py_bind_def)
  next
    case True
    with Cons.prems obtain w where w: "py_get s ''whisky'' = JStr w" by auto
    show ?thesis
    proof (cases "lookup w")
      case None
      with ih [of e0 "f0 + 1"] True w show ?thesis by (auto simp: py_bind_def)
    next
      case (Some r)
      with ih [of "e0 + 1" f0] True w show ?thesis by (auto simp: py_bind_def)
    qed
  qed
qed

lemma load_session_eligible: "load_session s = Inr s' \<Longrightarrow> eligible s' = eligible s"
  by (simp add: eligible_def load_session_id)

lemma load_data_eligible:
  assumes "load_data file = Inr d"
  shows "length (filter eligible (sessions d)) = length (filter eligible (sessions file))"
proof -
  from assms have "list_all2 (\<lambda>s s'. load_session s = Inr s') (sessions file) (sessions d)"
    by (simp add: load_data_sessions)
  then have "list_all2 (\<lambda>s s'. eligible s' = eligible s) (sessions file) (sessions d)"
    by (rule list_all2_mono) (simp add: load_session_eligible)
  then show ?thesis
    by (induction rule: list_all2_induct) auto
qed

text \<open>
  Claim C9. Whenever \<open>enrich_all\<close> returns, its two counts add up to the number of
  eligible stored sessions: those with a true (non-empty) whisky and a false (empty)
  \<^verbatim>\<open>image_url\<close>, \<^verbatim>\<open>rrp\<close> or \<^verbatim>\<open>dm_url\<close>. It returns, for every lookup
  function, when the file loads and the whisky of every eligible session is a string.
\<close>

theorem enrich_all_counts:
  "(enrich_all lookup file = Inr (file', e, f) \<longrightarrow>
      e + f = length (filter eligible (sessions file))) \<and>
   ((\<exists>d. load_data file = Inr d) \<and>
    (\<forall>s\<in>set (sessions file). eligible s \<longrightarrow> (\<exists>w. py_get s ''whisky'' = JStr w)) \<longrightarrow>
      (\<exists>file' e f. enrich_all lookup file = Inr (file', e, f)))"
proof (intro conjI impI)
  assume "enrich_all lookup file = Inr (file', e, f)"
  then obtain d ss' where d: "load_data file = Inr d"
    and l: "enrich_loop lookup (sessions d) 0 0 = Inr (ss', e, f)"
    by (auto simp: enrich_all_def py_bind_def split: sum.splits)
  from enrich_loop_counts [OF l] load_data_eligible [OF d]
  show "e + f = length (filter eligible (sessions file))" by simp
next
  assume a: "(\<exists>d. load_data file = Inr d) \<and>
    (\<forall>s\<in>set (sessions file). eligible s \<longrightarrow> (\<exists>w. py_get s ''whisky'' = JStr w))"
  then obtain d where d: "load_data file = Inr d" by blast
  have "\<forall>s'\<in>set (sessions d). eligible s' \<longrightarrow> (\<exists>w. py_get s' ''whisky'' = JStr w)"
  proof
    fix s' assume "s' \<in> set (sessions d)"
    then obtain j where j: "j < length (sessions d)" "s' = sessions d ! j"
      by (auto simp: in_set_conv_nth)
    with load_data_nth [OF d] have ls: "load_session (sessions file ! j) = Inr s'"
      and jf: "j < length (sessions file)" by auto
    from jf a have "eligible (sessions file ! j) \<longrightarrow> (\<exists>w. py_get (sessions file ! j) ''whisky'' = JStr w)"
      by simp
    with ls show "eligible s' \<longrightarrow> (\<exists>w. py_get s' ''whisky'' = JStr w)"
      by (simp add: load_session_eligible load_session_id)
  qed
  from enrich_loop_total [OF this, of lookup 0 0] d
  show "\<exists>file' e f. enrich_all lookup file = Inr (file', e, f)"
    by (auto simp: enrich_all_def py_bind_def)
qed

theorem enrich_all_counts_witness:
  "(\<exists>file'. enrich_all (\<lambda>w. if w = ''Oban 14'' then Some \<lparr>dm_url = JStr ''u'', price = JNum 95, image_url = JNull\<rparr> else None)
      \<lparr>sessions = [[''host'' \<mapsto> JStr ''Braas''],
                   [''whisky'' \<mapsto> JStr ''Oban 14''],
                   [''whisky'' \<mapsto> JStr ''Talisker 10'']], members = JNull\<rparr> = Inr (file', 1, 1)) \<and>
   (1::nat) + 1 = length (filter eligible [[''host'' \<mapsto> JStr ''Braas''],
                   [''whisky'' \<mapsto> JStr ''Oban 14''],
                   [''whisky'' \<mapsto> JStr ''Talisker 10'']])"
proof -
  let ?L = "\<lambda>w. if w = ''Oban 14'' then Some \<lparr>dm_url = JStr ''u'', price = JNum 95, image_url = JNull\<rparr> else None"
  let ?F = "\<lparr>sessions = [[''host'' \<mapsto> JStr ''Braas''],
                   [''whisky'' \<mapsto> JStr ''Oban 14''],
                   [''whisky'' \<mapsto> JStr ''Talisker 10'']], members = JNull\<rparr>"
  have l: "\<exists>d. load_data ?F = Inr d"
    by (simp add: load_data_def load_session_def normalise_host_def
      py_get_def HOST_ALIASES_def py_strip_def py_isspace_def py_lower_def py_lower_char_def)
  have t: "\<forall>s\<in>set (sessions ?F). eligible s \<longrightarrow> (\<exists>w. py_get s ''whisky'' = JStr w)"
    by (simp add: py_get_def eligible_def)
  from l t obtain file' e f where r: "enrich_all ?L ?F = Inr (file', e, f)"
    using enrich_all_counts [of ?L ?F] by blast
  then have s: "e + f = length (filter eligible (sessions ?F))"
    using enrich_all_counts [of ?L ?F file' e f] by blast
  have "\<exists>file'. enrich_all ?L ?F = Inr (file', 1, 1)"
    by (simp add: enrich_all_def py_bind_def load_data_def load_session_def normalise_host_def
      py_get_def HOST_ALIASES_def py_strip_def py_isspace_def py_lower_def py_lower_char_def
      eligible_def)
  with r s show ?thesis by auto
qed

section \<open>Identifiers: properties\<close>

lemma py_filterM_total:
  "\<forall>x\<in>set xs. \<exists>b. f x = Inr b \<Longrightarrow> py_filterM f xs = Inr (filter (\<lambda>x. f x = Inr True) xs)"
  by (induction xs) auto

lemma py_filterM_none:
  "\<forall>x\<in>set xs. f x = Inr False \<Longrightarrow> py_filterM f xs = Inr []"
  by (induction xs) auto

lemma py_filterM_sep_last:
  assumes "\<forall>x\<in>set pre. \<exists>b. f x = Inr b" and "f s = Inr True"
    and "\<forall>x\<in>set post. f x = Inr False"
  shows "py_filterM f (pre @ s # post) = Inr (filter (\<lambda>x. f x = Inr True) pre @ [s])"
proof -
  have "\<forall>x\<in>set (pre @ s # post). \<exists>b. f x = Inr b"
    using assms by auto
  then have "py_filterM f (pre @ s # post) = Inr (filter (\<lambda>x. f x = Inr True) (pre @ s # post))"
    by (rule py_filterM_total)
  moreover have "filter (\<lambda>x. f x = Inr True) post = []"
    using assms(3) by (induction post) auto
  ultimately show ?thesis using assms(2) by simp
qed

lemma compute_next_id_no_sep:
  "\<forall>x\<in>set ss. id_has_sep x = Inr False \<Longrightarrow> compute_next_id ss = Inr ''I:I''"
  by (simp add: compute_next_id_def py_filterM_none)

lemma compute_next_id_last_only:
  assumes "\<forall>x\<in>set pre. \<exists>b. id_has_sep x = Inr b" and "id_has_sep s = Inr True"
    and "\<forall>x\<in>set post. id_has_sep x = Inr False"
  shows "compute_next_id (pre @ s # post) = compute_next_id [s]"
proof -
  have "py_filterM id_has_sep [s] = Inr [s]"
    using assms(2) by simp
  then show ?thesis
    by (simp add: compute_next_id_def py_filterM_sep_last [OF assms])
qed

lemma py_split_no_sep: "sep \<notin> set t \<Longrightarrow> py_split sep t = [t]"
  by (induction t) auto

lemma py_split_two_sep: "py_split sep t = [a, b] \<Longrightarrow> sep \<in> set t"
  using py_split_no_sep [of sep t] by auto

lemma roman_to_int_cases:
  "roman_to_int a \<noteq> 0 \<Longrightarrow> a \<in> set ROMAN"
  by (simp add: roman_to_int_def split: if_splits)

lemma roman_roundtrip_all:
  "\<forall>a\<in>set ROMAN. 1 \<le> roman_to_int a \<and> roman_to_int a \<le> 12 \<and> int_to_roman (roman_to_int a) = a"
  by (simp add: ROMAN_def roman_to_int_def int_to_roman_def)

lemma roman_roundtrip:
  assumes "roman_to_int a \<noteq> 0"
  shows "1 \<le> roman_to_int a \<and> roman_to_int a \<le> 12 \<and> int_to_roman (roman_to_int a) = a"
  using roman_roundtrip_all roman_to_int_cases [OF assms] by blast

lemma id_has_sep_str:
  "py_get s ''id'' = JStr t \<Longrightarrow> id_has_sep s = Inr (CHR '':'' \<in> set t)"
  by (auto simp: id_has_sep_def)

lemma compute_next_id_single:
  assumes "py_get s ''id'' = JStr t" and "CHR '':'' \<in> set t"
  shows "compute_next_id [s] =
     (case py_split CHR '':'' t of
        [a, b] \<Rightarrow>
          if roman_to_int a = 0 \<or> roman_to_int b = 0 then Inr ''I:I''
          else if 7 \<le> roman_to_int b then Inr (int_to_roman (roman_to_int a + 1) @ '':I'')
          else Inr (a @ '':'' @ int_to_roman (roman_to_int b + 1))
      | _ \<Rightarrow> Inr ''I:I'')"
proof -
  have "id_has_sep s = Inr True"
    using assms by (simp add: id_has_sep_str)
  then have "py_filterM id_has_sep [s] = Inr [s]" by simp
  then show ?thesis
    using assms(1)
    by (simp add: compute_next_id_def members_per_round_def Let_def split: list.splits)
qed

lemma compute_next_id_malformed:
  assumes "py_get s ''id'' = JStr t" and "CHR '':'' \<in> set t"
    and "\<forall>a b. py_split CHR '':'' t = [a, b] \<longrightarrow> roman_to_int a = 0 \<or> roman_to_int b = 0"
  shows "compute_next_id [s] = Inr ''I:I''"
  using assms(3) by (auto simp: compute_next_id_single [OF assms(1,2)] split: list.splits)

lemma compute_next_id_valid:
  assumes "py_get s ''id'' = JStr t" and "py_split CHR '':'' t = [a, b]"
    and "roman_to_int a \<noteq> 0" and "roman_to_int b \<noteq> 0"
  shows "compute_next_id [s] =
     Inr (if roman_to_int b < 7
          then int_to_roman (roman_to_int a) @ '':'' @ int_to_roman (roman_to_int b + 1)
          else int_to_roman (roman_to_int a + 1) @ '':'' @ int_to_roman 1)"
proof -
  have sep: "CHR '':'' \<in> set t"
    using assms(2) by (rule py_split_two_sep)
  have one: "int_to_roman 1 = ''I''"
    by (simp add: int_to_roman_def ROMAN_def)
  from roman_roundtrip [OF assms(3)] have a: "int_to_roman (roman_to_int a) = a" by simp
  show ?thesis
    using assms(2-4) by (simp add: compute_next_id_single [OF assms(1) sep] a one)
qed

lemma compute_next_id_all_invalid:
  assumes "\<forall>x\<in>set ss. \<not> truthy (py_get x ''id'') \<or>
             (\<exists>t. py_get x ''id'' = JStr t \<and>
                  (\<forall>a b. py_split CHR '':'' t = [a, b] \<longrightarrow> roman_to_int a = 0 \<or> roman_to_int b = 0))"
  shows "compute_next_id ss = Inr ''I:I''"
proof -
  have typed: "\<forall>x\<in>set ss. \<exists>v. id_has_sep x = Inr v"
    using assms by (auto simp: id_has_sep_def)
  show ?thesis
  proof (cases "\<exists>x\<in>set ss. id_has_sep x = Inr True")
    case False
    with typed have "\<forall>x\<in>set ss. id_has_sep x = Inr False" by force
    then show ?thesis by (rule compute_next_id_no_sep)
  next
    case True
    from split_list_last_prop [OF this]
    obtain pre s post where ss: "ss = pre @ s # post" and s: "id_has_sep s = Inr True"
      and post: "\<forall>x\<in>set post. id_has_sep x \<noteq> Inr True"
      by blast
    from typed ss have pre': "\<forall>x\<in>set pre. \<exists>v. id_has_sep x = Inr v" by simp
    from typed ss post have post': "\<forall>x\<in>set post. id_has_sep x = Inr False" by force
    from s have "truthy (py_get s ''id'')"
      by (auto simp: id_has_sep_def split: if_splits)
    with assms ss obtain t where t: "py_get s ''id'' = JStr t"
      and bad: "\<forall>a b. py_split CHR '':'' t = [a, b] \<longrightarrow> roman_to_int a = 0 \<or> roman_to_int b = 0"
      by auto
    from s t have "CHR '':'' \<in> set t" by (simp add: id_has_sep_str)
    from compute_next_id_malformed [OF t this bad] compute_next_id_last_only [OF pre' s post'] ss
    show ?thesis by simp
  qed
qed

text \<open>
  Claim C7, as stated, fails where a malformed id that holds the separator stands after
  the last valid id. Here the list is sorted by the key of \<open>add_session\<close>, its last valid
  id is \<^verbatim>\<open>I:VII\<close>, that is \<open>(1, 7)\<close>, and the result is \<^verbatim>\<open>I:I\<close>, not the rendering
  \<^verbatim>\<open>II:I\<close> of \<open>(2, 1)\<close>.
\<close>

theorem compute_next_id_after_valid:
  "compute_next_id [[''id'' \<mapsto> JStr ''I:VII''], [''id'' \<mapsto> JStr ''I:VII:I'']] = Inr ''I:I'' \<and>
   py_split CHR '':'' ''I:VII'' = [''I'', ''VII''] \<and>
   roman_to_int ''I'' = 1 \<and> roman_to_int ''VII'' = 7 \<and>
   py_split CHR '':'' ''I:VII:I'' = [''I'', ''VII'', ''I''] \<and>
   int_to_roman (1 + 1) @ '':'' @ int_to_roman 1 = ''II:I''"
  by (simp add: compute_next_id_def id_has_sep_def py_get_def roman_to_int_def ROMAN_def
      int_to_roman_def members_per_round_def)

text \<open>
  Claim C7, amended. Let the last session whose id is non-empty and holds the separator
  have an id that splits into two tokens decoding to \<open>r\<close> and \<open>n\<close>, both non-zero (so the
  last valid id is \<open>(r, n)\<close> and no malformed id with a separator stands after it), and let
  the ids before it be strings or false values. Then \<open>compute_next_id\<close> returns the
  rendering of \<open>(r, n + 1)\<close> when \<open>n\<close> is below the round size and of \<open>(r + 1, 1)\<close>
  otherwise. On a list in which every id is false or a string that does not decode to two
  non-zero components, and on the empty list, it returns \<^verbatim>\<open>I:I\<close>, the rendering of
  \<open>(1, 1)\<close>. The round size is 7.
\<close>

theorem compute_next_id_successor:
  "((\<forall>x\<in>set pre. \<exists>v. id_has_sep x = Inr v) \<and> (\<forall>x\<in>set post. id_has_sep x = Inr False) \<and>
    py_get s ''id'' = JStr t \<and> py_split CHR '':'' t = [a, b] \<and>
    roman_to_int a = r \<and> roman_to_int b = n \<and> r \<noteq> 0 \<and> n \<noteq> 0 \<longrightarrow>
      compute_next_id (pre @ s # post) =
        Inr (if n < members_per_round then int_to_roman r @ '':'' @ int_to_roman (n + 1)
             else int_to_roman (r + 1) @ '':'' @ int_to_roman 1)) \<and>
   ((\<forall>x\<in>set ss. \<not> truthy (py_get x ''id'') \<or>
        (\<exists>t. py_get x ''id'' = JStr t \<and>
             (\<forall>a b. py_split CHR '':'' t = [a, b] \<longrightarrow> roman_to_int a = 0 \<or> roman_to_int b = 0))) \<longrightarrow>
      compute_next_id ss = Inr ''I:I'') \<and>
   compute_next_id [] = Inr ''I:I'' \<and>
   int_to_roman 1 @ '':'' @ int_to_roman 1 = ''I:I'' \<and>
   members_per_round = 7"
proof (intro conjI impI)
  assume h: "(\<forall>x\<in>set pre. \<exists>v. id_has_sep x = Inr v) \<and> (\<forall>x\<in>set post. id_has_sep x = Inr False) \<and>
    py_get s ''id'' = JStr t \<and> py_split CHR '':'' t = [a, b] \<and>
    roman_to_int a = r \<and> roman_to_int b = n \<and> r \<noteq> 0 \<and> n \<noteq> 0"
  then have t: "py_get s ''id'' = JStr t" and sp: "py_split CHR '':'' t = [a, b]"
    and a: "roman_to_int a \<noteq> 0" and b: "roman_to_int b \<noteq> 0" by auto
  have "id_has_sep s = Inr True"
    using t py_split_two_sep [OF sp] by (simp add: id_has_sep_str)
  with h have "compute_next_id (pre @ s # post) = compute_next_id [s]"
    by (intro compute_next_id_last_only) auto
  with compute_next_id_valid [OF t sp a b] h
  show "compute_next_id (pre @ s # post) =
        Inr (if n < members_per_round then int_to_roman r @ '':'' @ int_to_roman (n + 1)
             else int_to_roman (r + 1) @ '':'' @ int_to_roman 1)"
    by (simp add: members_per_round_def)
next
  assume "\<forall>x\<in>set ss. \<not> truthy (py_get x ''id'') \<or>
        (\<exists>t. py_get x ''id'' = JStr t \<and>
             (\<forall>a b. py_split CHR '':'' t = [a, b] \<longrightarrow> roman_to_int a = 0 \<or> roman_to_int b = 0))"
  then show "compute_next_id ss = Inr ''I:I''"
    by (rule compute_next_id_all_invalid)
next
  show "compute_next_id [] = Inr ''I:I''"
    by (simp add: compute_next_id_def)
next
  show "int_to_roman 1 @ '':'' @ int_to_roman 1 = ''I:I''"
    by (simp add: int_to_roman_def ROMAN_def)
next
  show "members_per_round = 7"
    by (simp add: members_per_round_def)
qed

theorem compute_next_id_successor_witness:
  "compute_next_id [[''id'' \<mapsto> JStr ''I:I''], [''id'' \<mapsto> JStr ''I:VII''], [''whisky'' \<mapsto> JStr ''Oban 14'']]
     = Inr ''II:I'' \<and>
   compute_next_id [[''id'' \<mapsto> JStr ''III:IV'']] = Inr ''III:V'' \<and>
   compute_next_id [[''id'' \<mapsto> JStr ''Z:I''], [''id'' \<mapsto> JNull]] = Inr ''I:I''"
proof -
  let ?p = "[''id'' \<mapsto> JStr ''I:I'']" and ?s = "[''id'' \<mapsto> JStr ''I:VII'']"
  let ?q = "[''whisky'' \<mapsto> JStr ''Oban 14'']" and ?u = "[''id'' \<mapsto> JStr ''III:IV'']"
  have r: "roman_to_int ''I'' = 1" "roman_to_int ''VII'' = 7" "roman_to_int ''III'' = 3"
    "roman_to_int ''IV'' = 4" "roman_to_int ''Z'' = 0"
    by (simp_all add: roman_to_int_def ROMAN_def)
  have i: "int_to_roman 1 = ''I''" "int_to_roman 2 = ''II''" "int_to_roman 3 = ''III''"
    "int_to_roman 5 = ''V''"
    by (simp_all add: int_to_roman_def ROMAN_def)
  have "(\<forall>x\<in>set [?p]. \<exists>v. id_has_sep x = Inr v) \<and> (\<forall>x\<in>set [?q]. id_has_sep x = Inr False) \<and>
    py_get ?s ''id'' = JStr ''I:VII'' \<and> py_split CHR '':'' ''I:VII'' = [''I'', ''VII''] \<and>
    roman_to_int ''I'' = 1 \<and> roman_to_int ''VII'' = 7 \<and> (1::int) \<noteq> 0 \<and> (7::int) \<noteq> 0"
    by (auto simp: id_has_sep_def py_get_def r)
  with compute_next_id_successor [of "[?p]" "[?q]" ?s "''I:VII''" "''I''" "''VII''" 1 7]
  have 1: "compute_next_id ([?p] @ ?s # [?q]) = Inr ''II:I''"
    by (simp add: members_per_round_def i)
  have "(\<forall>x\<in>set []. \<exists>v. id_has_sep x = Inr v) \<and> (\<forall>x\<in>set []. id_has_sep x = Inr False) \<and>
    py_get ?u ''id'' = JStr ''III:IV'' \<and> py_split CHR '':'' ''III:IV'' = [''III'', ''IV''] \<and>
    roman_to_int ''III'' = 3 \<and> roman_to_int ''IV'' = 4 \<and> (3::int) \<noteq> 0 \<and> (4::int) \<noteq> 0"
    by (simp add: py_get_def r)
  with compute_next_id_successor [of "[]" "[]" ?u "''III:IV''" "''III''" "''IV''" 3 4]
  have 2: "compute_next_id ([] @ ?u # []) = Inr ''III:V''"
    by (simp add: members_per_round_def i)
  let ?bad = "[[''id'' \<mapsto> JStr ''Z:I''], [''id'' \<mapsto> JNull]]"
  have "\<forall>x\<in>set ?bad. \<not> truthy (py_get x ''id'') \<or>
        (\<exists>t. py_get x ''id'' = JStr t \<and>
             (\<forall>a b. py_split CHR '':'' t = [a, b] \<longrightarrow> roman_to_int a = 0 \<or> roman_to_int b = 0))"
    by (simp add: py_get_def r)
  with compute_next_id_successor [where ss = ?bad]
  have 3: "compute_next_id ?bad = Inr ''I:I''" by blast
  from 1 2 3 show ?thesis by simp
qed

text \<open>
  Claim C1, as stated, fails: the scan keeps every id that is non-empty and holds the
  separator, and the computation starts from the last of them, valid or not. A malformed
  id with a separator after a fully valid one changes the result: with \<^verbatim>\<open>III:Z\<close>
  after \<^verbatim>\<open>II:III\<close> it is \<^verbatim>\<open>I:I\<close>, without it \<^verbatim>\<open>II:IV\<close>.
\<close>

theorem compute_next_id_malformed_last:
  "compute_next_id [[''id'' \<mapsto> JStr ''II:III''], [''id'' \<mapsto> JStr ''III:Z'']] = Inr ''I:I'' \<and>
   compute_next_id [[''id'' \<mapsto> JStr ''II:III'']] = Inr ''II:IV'' \<and>
   py_split CHR '':'' ''III:Z'' = [''III'', ''Z''] \<and> roman_to_int ''Z'' = 0"
  by (simp add: compute_next_id_def id_has_sep_def py_get_def roman_to_int_def ROMAN_def
      int_to_roman_def members_per_round_def)

text \<open>
  Claim C1, amended. \<open>compute_next_id\<close> starts from the last session whose id is
  non-empty and holds the separator: sessions whose id is missing, empty or without
  separator are skipped, wherever they stand, and the result is \<^verbatim>\<open>I:I\<close> when no session
  has an id with the separator. It is also \<^verbatim>\<open>I:I\<close> when the id of that last session
  does not split into exactly two tokens that both decode to non-zero values, whatever
  the sessions before it hold.
\<close>

theorem compute_next_id_last_separator:
  "((\<forall>x\<in>set ss. id_has_sep x = Inr False) \<longrightarrow> compute_next_id ss = Inr ''I:I'') \<and>
   ((\<forall>x\<in>set pre. \<exists>v. id_has_sep x = Inr v) \<and> id_has_sep s = Inr True \<and>
    (\<forall>x\<in>set post. id_has_sep x = Inr False) \<longrightarrow>
      compute_next_id (pre @ s # post) = compute_next_id [s]) \<and>
   ((\<forall>x\<in>set pre. \<exists>v. id_has_sep x = Inr v) \<and> (\<forall>x\<in>set post. id_has_sep x = Inr False) \<and>
    py_get s ''id'' = JStr t \<and> CHR '':'' \<in> set t \<and>
    (\<forall>a b. py_split CHR '':'' t = [a, b] \<longrightarrow> roman_to_int a = 0 \<or> roman_to_int b = 0) \<longrightarrow>
      compute_next_id (pre @ s # post) = Inr ''I:I'')"
proof (intro conjI impI)
  assume "\<forall>x\<in>set ss. id_has_sep x = Inr False"
  then show "compute_next_id ss = Inr ''I:I''"
    by (rule compute_next_id_no_sep)
next
  assume "(\<forall>x\<in>set pre. \<exists>v. id_has_sep x = Inr v) \<and> id_has_sep s = Inr True \<and>
    (\<forall>x\<in>set post. id_has_sep x = Inr False)"
  then show "compute_next_id (pre @ s # post) = compute_next_id [s]"
    by (intro compute_next_id_last_only) auto
next
  assume h: "(\<forall>x\<in>set pre. \<exists>v. id_has_sep x = Inr v) \<and> (\<forall>x\<in>set post. id_has_sep x = Inr False) \<and>
    py_get s ''id'' = JStr t \<and> CHR '':'' \<in> set t \<and>
    (\<forall>a b. py_split CHR '':'' t = [a, b] \<longrightarrow> roman_to_int a = 0 \<or> roman_to_int b = 0)"
  then have "id_has_sep s = Inr True"
    by (simp add: id_has_sep_str)
  with h have "compute_next_id (pre @ s # post) = compute_next_id [s]"
    by (intro compute_next_id_last_only) auto
  also from h have "\<dots> = Inr ''I:I''"
    by (intro compute_next_id_malformed) auto
  finally show "compute_next_id (pre @ s # post) = Inr ''I:I''" .
qed

theorem compute_next_id_last_separator_witness:
  "compute_next_id [[''id'' \<mapsto> JStr ''II:III''], [''id'' \<mapsto> JStr ''VII''], [''whisky'' \<mapsto> JStr ''Oban 14'']]
     = compute_next_id [[''id'' \<mapsto> JStr ''II:III'']] \<and>
   compute_next_id [[''id'' \<mapsto> JStr ''II:III''], [''id'' \<mapsto> JStr ''I:II:III''], [''id'' \<mapsto> JStr ''VII'']]
     = Inr ''I:I'' \<and>
   compute_next_id [[''id'' \<mapsto> JStr ''VII''], [''id'' \<mapsto> JStr []]] = Inr ''I:I''"
proof -
  let ?v = "[''id'' \<mapsto> JStr ''II:III'']" and ?n = "[''id'' \<mapsto> JStr ''VII'']"
  let ?q = "[''whisky'' \<mapsto> JStr ''Oban 14'']" and ?m = "[''id'' \<mapsto> JStr ''I:II:III'']"
  have "(\<forall>x\<in>set []. \<exists>v. id_has_sep x = Inr v) \<and> id_has_sep ?v = Inr True \<and>
    (\<forall>x\<in>set [?n, ?q]. id_has_sep x = Inr False)"
    by (simp add: id_has_sep_def py_get_def)
  with compute_next_id_last_separator [of _ "[]" ?v "[?n, ?q]"]
  have 1: "compute_next_id ([] @ ?v # [?n, ?q]) = compute_next_id [?v]" by blast
  have "(\<forall>x\<in>set [?v]. \<exists>v. id_has_sep x = Inr v) \<and> (\<forall>x\<in>set [?n]. id_has_sep x = Inr False) \<and>
    py_get ?m ''id'' = JStr ''I:II:III'' \<and> CHR '':'' \<in> set ''I:II:III'' \<and>
    (\<forall>a b. py_split CHR '':'' ''I:II:III'' = [a, b] \<longrightarrow> roman_to_int a = 0 \<or> roman_to_int b = 0)"
    by (auto simp: id_has_sep_def py_get_def)
  with compute_next_id_last_separator [of _ "[?v]" ?m "[?n]" "''I:II:III''"]
  have 2: "compute_next_id ([?v] @ ?m # [?n]) = Inr ''I:I''" by blast
  have "\<forall>x\<in>set [?n, [''id'' \<mapsto> JStr []]]. id_has_sep x = Inr False"
    by (simp add: id_has_sep_def py_get_def)
  with compute_next_id_last_separator [of "[?n, [''id'' \<mapsto> JStr []]]"]
  have 3: "compute_next_id [?n, [''id'' \<mapsto> JStr []]] = Inr ''I:I''" by blast
  from 1 2 3 show ?thesis by simp
qed

section \<open>Adding a session: properties\<close>

lemma roman_to_int_bounds: "0 \<le> roman_to_int a \<and> roman_to_int a \<le> 12"
  using roman_roundtrip [of a] by (cases "roman_to_int a = 0") auto

lemma session_sort_key_no_sep:
  "id_has_sep s = Inr False \<Longrightarrow> session_sort_key s = Inr (999, 999)"
  by (auto simp: session_sort_key_def id_has_sep_def split: if_splits)

lemma session_sort_key_cases:
  assumes "session_sort_key s = Inr k"
  shows "(id_has_sep s = Inr False \<and> k = (999, 999)) \<or>
         (id_has_sep s = Inr True \<and> fst k \<le> 12 \<and> snd k \<le> 12)"
proof (cases "truthy (py_get s ''id'')")
  case False
  with assms show ?thesis
    by (auto simp: session_sort_key_def id_has_sep_def)
next
  case True
  show ?thesis
  proof (cases "py_in_colon (py_get s ''id'')")
    case (Inl e)
    with assms True show ?thesis by (simp add: session_sort_key_def)
  next
    case (Inr v)
    show ?thesis
    proof (cases v)
      case False
      with assms True Inr show ?thesis
        by (simp add: session_sort_key_def id_has_sep_def)
    next
      case v: True
      with assms True Inr obtain t p0 p1 ps where "py_get s ''id'' = JStr t"
        and "py_split CHR '':'' t = p0 # p1 # ps" and "k = (roman_to_int p0, roman_to_int p1)"
        by (auto simp: session_sort_key_def split: jval.splits list.splits)
      with True Inr v roman_to_int_bounds [of p0] roman_to_int_bounds [of p1] show ?thesis
        by (simp add: id_has_sep_def)
    qed
  qed
qed

lemma py_sort_by_sorted:
  assumes "py_sort_by f xs = Inr ys"
  shows "\<exists>ks. py_mapM f ys = Inr ks \<and> sorted ks \<and> length ys = length xs \<and> set ys = set xs"
proof -
  from assms obtain ks0 where ks0: "py_mapM f xs = Inr ks0"
    and ys: "ys = map snd (sort_key fst (zip ks0 xs))"
    by (auto simp: py_sort_by_def split: sum.splits)
  let ?zs = "sort_key fst (zip ks0 xs)"
  from ks0 have l: "list_all2 (\<lambda>x k. f x = Inr k) xs ks0"
    by (simp add: py_mapM_Inr)
  then have len: "length ks0 = length xs"
    by (simp add: list_all2_lengthD)
  have "\<forall>z\<in>set (zip ks0 xs). f (snd z) = Inr (fst z)"
    using l by (auto simp: list_all2_conv_all_nth in_set_zip)
  then have "\<forall>z\<in>set ?zs. f (snd z) = Inr (fst z)"
    by simp
  then have "list_all2 (\<lambda>y k. f y = Inr k) (map snd ?zs) (map fst ?zs)"
    by (simp add: list_all2_map1 list_all2_map2 list_all2_same)
  then have 1: "py_mapM f ys = Inr (map fst ?zs)"
    by (simp add: py_mapM_Inr ys)
  have 2: "sorted (map fst ?zs)"
    by (rule sorted_sort_key)
  have 3: "length ys = length xs"
    by (simp add: ys len)
  have "set ys = snd ` set (zip ks0 xs)"
    by (simp add: ys)
  also have "\<dots> = set (map snd (zip ks0 xs))"
    by simp
  also have "\<dots> = set xs"
    by (simp add: len)
  finally have 4: "set ys = set xs" .
  from 1 2 3 4 show ?thesis by blast
qed

lemma add_session_sorted:
  assumes "add_session file body = Inr (file', session)"
  shows "\<exists>d. load_data file = Inr d \<and>
           py_sort_by session_sort_key (sessions d @ [session]) = Inr (sessions file') \<and>
           members file' = members file"
proof -
  from assms obtain d where d: "load_data file = Inr d"
    by (cases "load_data file") (auto simp: add_session_def py_bind_def)
  from assms d obtain ys where "py_sort_by session_sort_key (sessions d @ [session]) = Inr ys"
    and "file' = d\<lparr>sessions := ys\<rparr>"
    by (auto simp: add_session_def py_bind_def Let_def split: sum.splits if_splits)
  with d load_data_nth(3) [OF d] show ?thesis by auto
qed

lemma sorted_sentinel_last:
  assumes "list_all2 (\<lambda>y k. session_sort_key y = Inr k) ys ks" and "sorted ks"
    and "i < j" and "j < length ys" and "id_has_sep (ys ! i) = Inr False"
  shows "id_has_sep (ys ! j) = Inr False"
proof -
  from assms(1) have len: "length ks = length ys"
    by (simp add: list_all2_lengthD)
  from assms(3,4) have "i < length ys" by simp
  with assms(1) have ki: "session_sort_key (ys ! i) = Inr (ks ! i)"
    by (rule list_all2_nthD)
  from assms(1,4) have kj: "session_sort_key (ys ! j) = Inr (ks ! j)"
    by (rule list_all2_nthD)
  from assms(5) ki have i: "ks ! i = (999, 999)"
    by (simp add: session_sort_key_no_sep)
  from assms(2,3,4) len have le: "ks ! i \<le> ks ! j"
    by (simp add: sorted_iff_nth_mono)
  from session_sort_key_cases [OF kj] show ?thesis
  proof
    assume "id_has_sep (ys ! j) = Inr False \<and> ks ! j = (999, 999)"
    then show ?thesis by simp
  next
    assume "id_has_sep (ys ! j) = Inr True \<and> fst (ks ! j) \<le> 12 \<and> snd (ks ! j) \<le> 12"
    with le i have False
      by (cases "ks ! j") (simp add: less_eq_prod_def)
    then show ?thesis ..
  qed
qed

lemma py_split_nonempty: "py_split sep t \<noteq> []"
  by (induction t) (auto split: list.splits)

lemma py_split_sep_two: "sep \<in> set t \<Longrightarrow> \<exists>p0 p1 ps. py_split sep t = p0 # p1 # ps"
proof (induction t)
  case Nil
  then show ?case by simp
next
  case (Cons c cs)
  show ?case
  proof (cases "c = sep")
    case True
    then show ?thesis
      using py_split_nonempty [of sep cs] by (cases "py_split sep cs") auto
  next
    case False
    with Cons obtain p0 p1 ps where "py_split sep cs = p0 # p1 # ps" by auto
    with False show ?thesis by simp
  qed
qed

lemma id_typed_has_sep:
  "\<not> truthy (py_get s ''id'') \<or> (\<exists>t. py_get s ''id'' = JStr t) \<Longrightarrow> \<exists>v. id_has_sep s = Inr v"
  by (auto simp: id_has_sep_def)

lemma id_typed_sort_key:
  assumes "\<not> truthy (py_get s ''id'') \<or> (\<exists>t. py_get s ''id'' = JStr t)"
  shows "\<exists>k. session_sort_key s = Inr k"
proof (cases "truthy (py_get s ''id'')")
  case False
  then show ?thesis by (simp add: session_sort_key_def)
next
  case True
  with assms obtain t where t: "py_get s ''id'' = JStr t" by blast
  show ?thesis
  proof (cases "CHR '':'' \<in> set t")
    case sep: True
    from py_split_sep_two [OF this] t True sep show ?thesis
      by (auto simp: session_sort_key_def)
  next
    case False
    with t True show ?thesis by (simp add: session_sort_key_def)
  qed
qed

lemma py_mapM_total: "\<forall>x\<in>set xs. \<exists>y. f x = Inr y \<Longrightarrow> \<exists>ys. py_mapM f xs = Inr ys"
  by (induction xs) auto

lemma compute_next_id_typed:
  assumes "\<forall>s\<in>set ss. \<not> truthy (py_get s ''id'') \<or> (\<exists>t. py_get s ''id'' = JStr t)"
  shows "\<exists>i. compute_next_id ss = Inr i"
proof -
  from assms have typed: "\<forall>x\<in>set ss. \<exists>v. id_has_sep x = Inr v"
    by (simp add: id_typed_has_sep)
  show ?thesis
  proof (cases "\<exists>x\<in>set ss. id_has_sep x = Inr True")
    case False
    with typed have "\<forall>x\<in>set ss. id_has_sep x = Inr False" by force
    then show ?thesis by (simp add: compute_next_id_no_sep)
  next
    case True
    from split_list_last_prop [OF this]
    obtain pre s post where ss: "ss = pre @ s # post" and s: "id_has_sep s = Inr True"
      and post: "\<forall>x\<in>set post. id_has_sep x \<noteq> Inr True"
      by blast
    from typed ss have pre': "\<forall>x\<in>set pre. \<exists>v. id_has_sep x = Inr v" by simp
    from typed ss post have post': "\<forall>x\<in>set post. id_has_sep x = Inr False" by force
    from s have "truthy (py_get s ''id'')"
      by (auto simp: id_has_sep_def split: if_splits)
    with assms ss obtain t where t: "py_get s ''id'' = JStr t"
      by auto
    from s t have "CHR '':'' \<in> set t" by (simp add: id_has_sep_str)
    from compute_next_id_single [OF t this] have "\<exists>i. compute_next_id [s] = Inr i"
      by (auto split: list.splits)
    with compute_next_id_last_only [OF pre' s post'] ss show ?thesis by simp
  qed
qed

lemma add_session_total:
  assumes "load_data file = Inr d" and "normalise_host (py_get body ''host'') = Inr h"
    and "\<forall>s\<in>set (body # sessions file). \<not> truthy (py_get s ''id'') \<or> (\<exists>t. py_get s ''id'' = JStr t)"
  shows "\<exists>file' session. add_session file body = Inr (file', session)"
proof -
  have ids: "\<forall>s\<in>set (sessions d). \<not> truthy (py_get s ''id'') \<or> (\<exists>t. py_get s ''id'' = JStr t)"
  proof
    fix s' assume "s' \<in> set (sessions d)"
    then obtain j where j: "j < length (sessions d)" "s' = sessions d ! j"
      by (auto simp: in_set_conv_nth)
    with load_data_nth [OF assms(1)] have "load_session (sessions file ! j) = Inr s'"
      and "j < length (sessions file)" by auto
    with assms(3) show "\<not> truthy (py_get s' ''id'') \<or> (\<exists>t. py_get s' ''id'' = JStr t)"
      by (simp add: load_session_id)
  qed
  from compute_next_id_typed [OF ids] obtain i where i: "compute_next_id (sessions d) = Inr i"
    by blast
  define b where "b = body(''host'' \<mapsto> h)"
  define session where "session = (if \<not> truthy (py_get b ''id'') then b(''id'' \<mapsto> JStr i) else b)"
  have bid: "py_get b ''id'' = py_get body ''id''"
    by (simp add: py_get_def b_def)
  have st: "\<not> truthy (py_get session ''id'') \<or> (\<exists>t. py_get session ''id'' = JStr t)"
  proof (cases "truthy (py_get b ''id'')")
    case True
    with assms(3) bid show ?thesis by (simp add: session_def)
  next
    case False
    then have "py_get session ''id'' = JStr i" by (simp add: session_def py_get_def)
    then show ?thesis by simp
  qed
  have "\<forall>s\<in>set (sessions d @ [session]). \<exists>k. session_sort_key s = Inr k"
  proof
    fix s assume "s \<in> set (sessions d @ [session])"
    then have "s \<in> set (sessions d) \<or> s = session" by auto
    with ids st have "\<not> truthy (py_get s ''id'') \<or> (\<exists>t. py_get s ''id'' = JStr t)" by blast
    then show "\<exists>k. session_sort_key s = Inr k" by (rule id_typed_sort_key)
  qed
  from py_mapM_total [OF this] obtain ks
    where "py_mapM session_sort_key (sessions d @ [session]) = Inr ks" by blast
  then have "\<exists>ys. py_sort_by session_sort_key (sessions d @ [session]) = Inr ys"
    by (simp add: py_sort_by_def)
  then obtain ys where ys: "py_sort_by session_sort_key (sessions d @ [session]) = Inr ys" ..
  have "add_session file body = Inr (d\<lparr>sessions := ys\<rparr>, session)"
  proof (cases "truthy (py_get b ''id'')")
    case True
    with assms(1,2) ys show ?thesis
      by (simp add: add_session_def py_bind_def Let_def b_def [symmetric] session_def)
  next
    case False
    with assms(1,2) ys i show ?thesis
      by (simp add: add_session_def py_bind_def Let_def b_def [symmetric] session_def)
  qed
  then show ?thesis by blast
qed

text \<open>
  Claim C2, as stated, fails: the sentinel key is used only for an id that is missing,
  empty or without separator. An id that holds the separator is keyed by its decoded
  components, an unknown component counting as 0, so the session with the invalid id
  \<^verbatim>\<open>Z:I\<close> is placed before the session with the valid id \<^verbatim>\<open>I:I\<close>.
\<close>

theorem add_session_invalid_first:
  "\<exists>file' session.
     add_session \<lparr>sessions = [[''id'' \<mapsto> JStr ''I:I'']], members = JNull\<rparr> [''id'' \<mapsto> JStr ''Z:I'']
       = Inr (file', session) \<and>
     map (\<lambda>s. py_get s ''id'') (sessions file') = [JStr ''Z:I'', JStr ''I:I''] \<and>
     roman_to_int ''Z'' = 0 \<and> roman_to_int ''I'' = 1"
  by (simp add: add_session_def py_bind_def load_data_def load_session_def normalise_host_def
      py_get_def py_sort_by_def session_sort_key_def roman_to_int_def ROMAN_def less_eq_prod_def)

text \<open>
  Claim C2, amended. After every add operation that returns, the stored sequence is
  sorted ascending by the key of \<open>session_sort_key\<close>: the pair decoded from the first
  two components of an id that holds the separator, each between 0 and 12, and the
  sentinel \<open>(999, 999)\<close> for an id that is missing, empty or without separator. Every
  session of the second kind is placed after all sessions of the first kind. The added
  session is in the sequence, which is one longer than before. The operation returns
  when the file loads, the host of the request is a string or a false value, and every
  id is a string or a false value.
\<close>

theorem add_session_sorted_by_key:
  "(add_session file body = Inr (file', session) \<longrightarrow>
      (\<exists>ks. py_mapM session_sort_key (sessions file') = Inr ks \<and> sorted ks) \<and>
      (\<forall>s\<in>set (sessions file'). \<forall>k. session_sort_key s = Inr k \<longrightarrow>
         (id_has_sep s = Inr False \<and> k = (999, 999)) \<or>
         (id_has_sep s = Inr True \<and> fst k \<le> 12 \<and> snd k \<le> 12)) \<and>
      (\<forall>i j. i < j \<and> j < length (sessions file') \<and> id_has_sep (sessions file' ! i) = Inr False \<longrightarrow>
         id_has_sep (sessions file' ! j) = Inr False) \<and>
      session \<in> set (sessions file') \<and>
      length (sessions file') = length (sessions file) + 1) \<and>
   ((\<exists>d. load_data file = Inr d) \<and> (\<exists>h. normalise_host (py_get body ''host'') = Inr h) \<and>
    (\<forall>s\<in>set (body # sessions file). \<not> truthy (py_get s ''id'') \<or> (\<exists>t. py_get s ''id'' = JStr t)) \<longrightarrow>
      (\<exists>file' session. add_session file body = Inr (file', session)))"
proof (intro conjI impI)
  assume a: "add_session file body = Inr (file', session)"
  from add_session_sorted [OF a] obtain d where d: "load_data file = Inr d"
    and srt: "py_sort_by session_sort_key (sessions d @ [session]) = Inr (sessions file')"
    by blast
  from py_sort_by_sorted [OF srt] obtain ks
    where ks: "py_mapM session_sort_key (sessions file') = Inr ks" "sorted ks"
      and len: "length (sessions file') = length (sessions d @ [session])"
      and st: "set (sessions file') = set (sessions d @ [session])"
    by blast
  from ks show "\<exists>ks. py_mapM session_sort_key (sessions file') = Inr ks \<and> sorted ks"
    by blast
  show "\<forall>s\<in>set (sessions file'). \<forall>k. session_sort_key s = Inr k \<longrightarrow>
         (id_has_sep s = Inr False \<and> k = (999, 999)) \<or>
         (id_has_sep s = Inr True \<and> fst k \<le> 12 \<and> snd k \<le> 12)"
    using session_sort_key_cases by blast
  from ks(1) have l: "list_all2 (\<lambda>y k. session_sort_key y = Inr k) (sessions file') ks"
    by (simp add: py_mapM_Inr)
  show "\<forall>i j. i < j \<and> j < length (sessions file') \<and> id_has_sep (sessions file' ! i) = Inr False \<longrightarrow>
         id_has_sep (sessions file' ! j) = Inr False"
    using sorted_sentinel_last [OF l ks(2)] by blast
  from st show "session \<in> set (sessions file')" by simp
  from len load_data_nth(1) [OF d] show "length (sessions file') = length (sessions file) + 1"
    by simp
next
  assume "(\<exists>d. load_data file = Inr d) \<and> (\<exists>h. normalise_host (py_get body ''host'') = Inr h) \<and>
    (\<forall>s\<in>set (body # sessions file). \<not> truthy (py_get s ''id'') \<or> (\<exists>t. py_get s ''id'' = JStr t))"
  then show "\<exists>file' session. add_session file body = Inr (file', session)"
    using add_session_total by blast
qed

theorem add_session_sorted_by_key_witness:
  "\<exists>file' session.
     add_session \<lparr>sessions = [[''id'' \<mapsto> JStr ''I:II''], [''whisky'' \<mapsto> JStr ''Oban 14'']],
                  members = JNull\<rparr> [''id'' \<mapsto> JStr ''I:I'', ''host'' \<mapsto> JStr ''brass'']
       = Inr (file', session) \<and>
     map (\<lambda>s. py_get s ''id'') (sessions file') = [JStr ''I:I'', JStr ''I:II'', JNull] \<and>
     (\<exists>ks. py_mapM session_sort_key (sessions file') = Inr ks \<and> sorted ks) \<and>
     id_has_sep (sessions file' ! 2) = Inr False \<and>
     session \<in> set (sessions file') \<and>
     length (sessions file') = 3"
proof -
  let ?F = "\<lparr>sessions = [[''id'' \<mapsto> JStr ''I:II''], [''whisky'' \<mapsto> JStr ''Oban 14'']],
                  members = JNull\<rparr>"
  let ?B = "[''id'' \<mapsto> JStr ''I:I'', ''host'' \<mapsto> JStr ''brass'']"
  have l: "\<exists>d. load_data ?F = Inr d"
    by (simp add: load_data_def load_session_def normalise_host_def py_get_def)
  have h: "\<exists>h. normalise_host (py_get ?B ''host'') = Inr h"
    by (simp add: normalise_host_def py_get_def)
  have t: "\<forall>s\<in>set (?B # sessions ?F). \<not> truthy (py_get s ''id'') \<or> (\<exists>t. py_get s ''id'' = JStr t)"
    by (simp add: py_get_def)
  from l h t obtain file' session where a: "add_session ?F ?B = Inr (file', session)"
    using add_session_sorted_by_key [of ?F ?B] by blast
  have "\<exists>f s. add_session ?F ?B = Inr (f, s) \<and>
          map (\<lambda>s. py_get s ''id'') (sessions f) = [JStr ''I:I'', JStr ''I:II'', JNull] \<and>
          id_has_sep (sessions f ! 2) = Inr False"
    by (simp add: add_session_def py_bind_def load_data_def load_session_def normalise_host_def
      py_get_def py_sort_by_def session_sort_key_def roman_to_int_def ROMAN_def less_eq_prod_def
      HOST_ALIASES_def py_strip_def py_isspace_def py_lower_def py_lower_char_def id_has_sep_def)
  with a have e: "map (\<lambda>s. py_get s ''id'') (sessions file') = [JStr ''I:I'', JStr ''I:II'', JNull]"
    "id_has_sep (sessions file' ! 2) = Inr False"
    by auto
  from a have "(\<exists>ks. py_mapM session_sort_key (sessions file') = Inr ks \<and> sorted ks) \<and>
     session \<in> set (sessions file') \<and> length (sessions file') = length (sessions ?F) + 1"
    using add_session_sorted_by_key [of ?F ?B file' session] by blast
  with a e show ?thesis by simp
qed

lemma py_split_cons: "sep \<notin> set x \<Longrightarrow> py_split sep (x @ sep # y) = x # py_split sep y"
  by (induction x) auto

lemma py_split_pair:
  "sep \<notin> set x \<Longrightarrow> sep \<notin> set y \<Longrightarrow> py_split sep (x @ sep # y) = [x, y]"
  by (simp add: py_split_cons py_split_no_sep)

lemma roman_no_sep: "\<forall>a\<in>set ROMAN. CHR '':'' \<notin> set a"
  by (simp add: ROMAN_def)

lemma int_to_roman_13: "int_to_roman 13 = ''13'' \<and> roman_to_int ''13'' = 0"
  by (simp add: int_to_roman_def roman_to_int_def ROMAN_def py_str_int_def digits_of_nat.simps)

lemma int_to_roman_valid:
  assumes "1 \<le> n" and "n \<le> 12"
  shows "int_to_roman n \<in> set ROMAN \<and> roman_to_int (int_to_roman n) = n"
proof -
  from assms consider "n = 1" | "n = 2" | "n = 3" | "n = 4" | "n = 5" | "n = 6" | "n = 7"
    | "n = 8" | "n = 9" | "n = 10" | "n = 11" | "n = 12"
    by atomize_elim arith
  then show ?thesis
    by cases (simp_all add: int_to_roman_def roman_to_int_def ROMAN_def)
qed

lemma session_sort_key_id_cong:
  "py_get s' ''id'' = py_get s ''id'' \<Longrightarrow> session_sort_key s' = session_sort_key s"
  by (simp add: session_sort_key_def)

lemma session_sort_key_valid:
  assumes "py_get s ''id'' = JStr t" and "py_split CHR '':'' t = [a, b]"
  shows "session_sort_key s = Inr (roman_to_int a, roman_to_int b)"
proof -
  from assms(2) have "CHR '':'' \<in> set t" by (rule py_split_two_sep)
  moreover from this have "t \<noteq> []" by auto
  ultimately show ?thesis
    using assms by (simp add: session_sort_key_def)
qed

lemma distinct_map_insort_key:
  "distinct (map h (insort_key f x zs)) = (h x \<notin> h ` set zs \<and> distinct (map h zs))"
  by (induction zs) (auto simp: set_insort_key)

lemma distinct_map_sort_key: "distinct (map h (sort_key f zs)) = distinct (map h zs)"
  by (induction zs) (simp_all add: distinct_map_insort_key)

lemma py_sort_by_distinct:
  assumes "py_sort_by f xs = Inr ys"
  shows "distinct (map g ys) = distinct (map g xs)"
proof -
  from assms obtain ks0 where ks0: "py_mapM f xs = Inr ks0"
    and ys: "ys = map snd (sort_key fst (zip ks0 xs))"
    by (auto simp: py_sort_by_def split: sum.splits)
  from ks0 have len: "length ks0 = length xs"
    by (simp add: py_mapM_Inr list_all2_lengthD)
  have "map g ys = map (g \<circ> snd) (sort_key fst (zip ks0 xs))"
    by (simp add: ys)
  then have "distinct (map g ys) = distinct (map (g \<circ> snd) (zip ks0 xs))"
    by (simp only: distinct_map_sort_key)
  also have "map (g \<circ> snd) (zip ks0 xs) = map g (map snd (zip ks0 xs))"
    by simp
  also have "map snd (zip ks0 xs) = xs"
    by (simp add: len)
  finally show ?thesis .
qed

lemma last_key_max:
  assumes "list_all2 (\<lambda>s k. session_sort_key s = Inr k) ss ks" and "sorted ks"
    and "s \<in> set ss"
  shows "\<exists>k kl. session_sort_key s = Inr k \<and> session_sort_key (last ss) = Inr kl \<and> k \<le> kl"
proof -
  from assms(3) obtain j where j: "j < length ss" "s = ss ! j"
    by (auto simp: in_set_conv_nth)
  then have ne: "ss \<noteq> []" by auto
  from assms(1) have len: "length ks = length ss"
    by (simp add: list_all2_lengthD)
  let ?m = "length ss - 1"
  from ne have m: "?m < length ss" by simp
  from assms(1) j(1) have kj: "session_sort_key (ss ! j) = Inr (ks ! j)"
    by (rule list_all2_nthD)
  from assms(1) m have km: "session_sort_key (ss ! ?m) = Inr (ks ! ?m)"
    by (rule list_all2_nthD)
  from j(1) m have "j \<le> ?m" by simp
  with assms(2) m len have "ks ! j \<le> ks ! ?m"
    by (simp add: sorted_iff_nth_mono)
  with kj km j(2) ne show ?thesis
    by (auto simp: last_conv_nth)
qed

lemma successor_rendering:
  assumes "1 \<le> r" and "r \<le> 13" and "1 \<le> n" and "n \<le> 12"
  shows "py_split CHR '':'' (int_to_roman r @ '':'' @ int_to_roman n) = [int_to_roman r, int_to_roman n]"
proof -
  have r: "CHR '':'' \<notin> set (int_to_roman r)"
  proof (cases "r = 13")
    case True
    then show ?thesis by (simp add: int_to_roman_13)
  next
    case False
    with assms have "int_to_roman r \<in> set ROMAN" by (simp add: int_to_roman_valid)
    with roman_no_sep show ?thesis by blast
  qed
  from assms have "int_to_roman n \<in> set ROMAN" by (simp add: int_to_roman_valid)
  with roman_no_sep have "CHR '':'' \<notin> set (int_to_roman n)" by blast
  with r show ?thesis by (simp add: py_split_pair)
qed

lemma compute_next_id_fresh:
  assumes valid: "\<forall>s\<in>set ss. \<exists>t a b. py_get s ''id'' = JStr t \<and> py_split CHR '':'' t = [a, b] \<and>
                    roman_to_int a \<noteq> 0 \<and> roman_to_int b \<noteq> 0"
    and keys: "list_all2 (\<lambda>s k. session_sort_key s = Inr k) ss ks" "sorted ks"
    and new: "compute_next_id ss = Inr new"
  shows "\<forall>s\<in>set ss. py_get s ''id'' \<noteq> JStr new"
proof (cases "ss = []")
  case True
  then show ?thesis by simp
next
  case False
  let ?l = "last ss"
  from False have ss: "ss = butlast ss @ ?l # []" by simp
  have sep: "\<forall>s\<in>set ss. id_has_sep s = Inr True"
  proof
    fix s assume "s \<in> set ss"
    with valid obtain t a b where "py_get s ''id'' = JStr t" and "py_split CHR '':'' t = [a, b]"
      by blast
    then show "id_has_sep s = Inr True"
      using py_split_two_sep [of "CHR '':''" t a b] by (simp add: id_has_sep_str)
  qed
  from False valid obtain tl a b where tl: "py_get ?l ''id'' = JStr tl"
    and sp: "py_split CHR '':'' tl = [a, b]" and a: "roman_to_int a \<noteq> 0" and b: "roman_to_int b \<noteq> 0"
    using last_in_set [OF False] by blast
  let ?ri = "roman_to_int a" and ?si = "roman_to_int b"
  from roman_roundtrip [OF a] roman_roundtrip [OF b]
  have bounds: "1 \<le> ?ri" "?ri \<le> 12" "1 \<le> ?si" "?si \<le> 12" by auto
  have "compute_next_id (butlast ss @ ?l # []) = compute_next_id [?l]"
  proof (rule compute_next_id_last_only)
    show "\<forall>x\<in>set (butlast ss). \<exists>v. id_has_sep x = Inr v"
      using sep by (auto dest: in_set_butlastD)
    show "id_has_sep ?l = Inr True"
      using sep False by simp
    show "\<forall>x\<in>set []. id_has_sep x = Inr False" by simp
  qed
  with ss new have "compute_next_id [?l] = Inr new" by simp
  with compute_next_id_valid [OF tl sp a b]
  have new_eq: "new = (if ?si < 7 then int_to_roman ?ri @ '':'' @ int_to_roman (?si + 1)
                      else int_to_roman (?ri + 1) @ '':'' @ int_to_roman 1)" by simp
  define r' where "r' = (if ?si < 7 then ?ri else ?ri + 1)"
  define n' where "n' = (if ?si < 7 then ?si + 1 else 1)"
  from new_eq have nw: "new = int_to_roman r' @ '':'' @ int_to_roman n'"
    by (simp add: r'_def n'_def)
  from bounds have rb: "1 \<le> r'" "r' \<le> 13" "1 \<le> n'" "n' \<le> 12"
    by (auto simp: r'_def n'_def)
  from bounds have gt: "(?ri, ?si) < (r', n')"
    by (auto simp: r'_def n'_def less_prod_def)
  from session_sort_key_valid [OF tl sp] have kl: "session_sort_key ?l = Inr (?ri, ?si)" .
  show ?thesis
  proof (intro ballI notI)
    fix s assume s: "s \<in> set ss" and eq: "py_get s ''id'' = JStr new"
    from valid s eq obtain a' b' where sp': "py_split CHR '':'' new = [a', b']"
      and a': "roman_to_int a' \<noteq> 0" by auto
    from successor_rendering [OF rb] nw sp'
    have ab: "a' = int_to_roman r'" "b' = int_to_roman n'" by auto
    show False
    proof (cases "r' = 13")
      case True
      with ab a' show False by (simp add: int_to_roman_13)
    next
      case False
      with rb have "r' \<le> 12" by simp
      with rb ab int_to_roman_valid [of r'] int_to_roman_valid [of n']
      have "roman_to_int a' = r'" "roman_to_int b' = n'" by auto
      with session_sort_key_valid [OF eq sp'] have ks: "session_sort_key s = Inr (r', n')" by simp
      from last_key_max [OF keys s] ks kl have "(r', n') \<le> (?ri, ?si)" by auto
      with gt show False using leD by blast
    qed
  qed
qed

lemma update_loop_ids:
  "update_loop ss sid u = Some (ss', s') \<Longrightarrow> u ''id'' = None \<Longrightarrow>
     map (\<lambda>s. py_get s ''id'') ss' = map (\<lambda>s. py_get s ''id'') ss"
proof (induction ss arbitrary: ss')
  case Nil
  then show ?case by simp
next
  case (Cons s ss)
  show ?case
  proof (cases "py_get s ''id'' = JStr sid")
    case True
    with Cons.prems show ?thesis
      by (auto simp: py_get_def map_add_def)
  next
    case False
    with Cons.prems obtain ss1 where "update_loop ss sid u = Some (ss1, s')" and "ss' = s # ss1"
      by (auto split: option.splits)
    with Cons.IH [of ss1] Cons.prems(2) show ?thesis by simp
  qed
qed

lemma add_session_allocated:
  assumes "add_session file body = Inr (file', session)" and "\<not> truthy (py_get body ''id'')"
  shows "\<exists>d h new. load_data file = Inr d \<and> compute_next_id (sessions d) = Inr new \<and>
           session = body(''host'' \<mapsto> h, ''id'' \<mapsto> JStr new) \<and>
           py_sort_by session_sort_key (sessions d @ [session]) = Inr (sessions file')"
proof -
  from assms(1) obtain d where d: "load_data file = Inr d"
    by (cases "load_data file") (auto simp: add_session_def py_bind_def)
  from assms(1) d obtain h where h: "normalise_host (py_get body ''host'') = Inr h"
    by (cases "normalise_host (py_get body ''host'')") (auto simp: add_session_def py_bind_def)
  have f: "\<not> truthy (py_get (body(''host'' \<mapsto> h)) ''id'')"
    using assms(2) by (simp add: py_get_def)
  from assms(1) d h f obtain new where new: "compute_next_id (sessions d) = Inr new"
    by (cases "compute_next_id (sessions d)") (auto simp: add_session_def py_bind_def Let_def)
  from assms(1) d h f new
  have "session = body(''host'' \<mapsto> h, ''id'' \<mapsto> JStr new) \<and>
        py_sort_by session_sort_key (sessions d @ [session]) = Inr (sessions file')"
    by (auto simp: add_session_def py_bind_def Let_def split: sum.splits)
  with d new show ?thesis by blast
qed

lemma load_data_keys:
  assumes "load_data file = Inr d"
    and "list_all2 (\<lambda>s k. session_sort_key s = Inr k) (sessions file) ks"
  shows "list_all2 (\<lambda>s k. session_sort_key s = Inr k) (sessions d) ks"
proof -
  note nth = load_data_nth [OF assms(1)]
  from assms(2) have len: "length ks = length (sessions file)"
    by (simp add: list_all2_lengthD)
  have "session_sort_key (sessions d ! j) = Inr (ks ! j)" if "j < length (sessions d)" for j
  proof -
    from that nth(1) have j: "j < length (sessions file)" by simp
    from nth(2) [OF j] have "py_get (sessions d ! j) ''id'' = py_get (sessions file ! j) ''id''"
      by (simp add: load_session_id)
    then have "session_sort_key (sessions d ! j) = session_sort_key (sessions file ! j)"
      by (rule session_sort_key_id_cong)
    also from assms(2) j have "\<dots> = Inr (ks ! j)" by (rule list_all2_nthD)
    finally show ?thesis .
  qed
  with len nth(1) show ?thesis
    by (simp add: list_all2_conv_all_nth)
qed

text \<open>
  Claim C3, as stated, fails: \<open>add_session\<close> appends the session of the request whatever
  id it carries. Adding a session with the explicit id \<^verbatim>\<open>I:I\<close> to a file that holds a
  session with the id \<^verbatim>\<open>I:I\<close> leaves two sessions with that valid id.
\<close>

theorem add_session_duplicate_id:
  "\<exists>file' session.
     add_session \<lparr>sessions = [[''id'' \<mapsto> JStr ''I:I'', ''whisky'' \<mapsto> JStr ''Oban 14'']],
                  members = JNull\<rparr> [''id'' \<mapsto> JStr ''I:I'', ''whisky'' \<mapsto> JStr ''Talisker 10'']
       = Inr (file', session) \<and>
     map (\<lambda>s. py_get s ''id'') (sessions file') = [JStr ''I:I'', JStr ''I:I''] \<and>
     map (\<lambda>s. py_get s ''whisky'') (sessions file') = [JStr ''Oban 14'', JStr ''Talisker 10'']"
  by (simp add: add_session_def py_bind_def load_data_def load_session_def normalise_host_def
      py_get_def py_sort_by_def session_sort_key_def roman_to_int_def ROMAN_def less_eq_prod_def)

text \<open>
  Claim C3, amended. Neither \<open>add_session\<close> nor \<open>update_session\<close> compares ids. Two
  operations keep the ids unique all the same. An add whose request has no id (or an
  empty one), on a file whose ids all decode to two non-zero components, are pairwise
  distinct and are sorted ascending by their key, allocates an id that no stored session
  has, and leaves the ids pairwise distinct. An update whose patch has no key \<^verbatim>\<open>id\<close>
  leaves the sequence of ids as it is.
\<close>

theorem allocated_id_unique:
  "(add_session file body = Inr (file', session) \<and> \<not> truthy (py_get body ''id'') \<and>
    (\<forall>s\<in>set (sessions file). \<exists>t a b. py_get s ''id'' = JStr t \<and> py_split CHR '':'' t = [a, b] \<and>
        roman_to_int a \<noteq> 0 \<and> roman_to_int b \<noteq> 0) \<and>
    (\<exists>ks. py_mapM session_sort_key (sessions file) = Inr ks \<and> sorted ks) \<and>
    distinct (map (\<lambda>s. py_get s ''id'') (sessions file)) \<longrightarrow>
      py_get session ''id'' \<notin> set (map (\<lambda>s. py_get s ''id'') (sessions file)) \<and>
      distinct (map (\<lambda>s. py_get s ''id'') (sessions file'))) \<and>
   (update_session file sid u = Inr (file', r) \<and> u ''id'' = None \<longrightarrow>
      map (\<lambda>s. py_get s ''id'') (sessions file') = map (\<lambda>s. py_get s ''id'') (sessions file))"
proof (intro conjI impI)
  assume h: "add_session file body = Inr (file', session) \<and> \<not> truthy (py_get body ''id'') \<and>
    (\<forall>s\<in>set (sessions file). \<exists>t a b. py_get s ''id'' = JStr t \<and> py_split CHR '':'' t = [a, b] \<and>
        roman_to_int a \<noteq> 0 \<and> roman_to_int b \<noteq> 0) \<and>
    (\<exists>ks. py_mapM session_sort_key (sessions file) = Inr ks \<and> sorted ks) \<and>
    distinct (map (\<lambda>s. py_get s ''id'') (sessions file))"
  let ?id = "\<lambda>s. py_get s ''id''"
  let ?valid = "\<lambda>v. \<exists>t a b. v = JStr t \<and> py_split CHR '':'' t = [a, b] \<and>
        roman_to_int a \<noteq> 0 \<and> roman_to_int b \<noteq> 0"
  from h obtain d hst new where d: "load_data file = Inr d"
    and new: "compute_next_id (sessions d) = Inr new"
    and session: "session = body(''host'' \<mapsto> hst, ''id'' \<mapsto> JStr new)"
    and srt: "py_sort_by session_sort_key (sessions d @ [session]) = Inr (sessions file')"
    using add_session_allocated [of "file" body file' session] by blast
  note ids = load_data_ids [OF d]
  from h have "\<forall>v\<in>set (map ?id (sessions file)). ?valid v" by simp
  then have "\<forall>v\<in>set (map ?id (sessions d)). ?valid v" by (simp only: ids)
  then have valid: "\<forall>s\<in>set (sessions d). \<exists>t a b. py_get s ''id'' = JStr t \<and>
      py_split CHR '':'' t = [a, b] \<and> roman_to_int a \<noteq> 0 \<and> roman_to_int b \<noteq> 0" by simp
  from h obtain ks where ks: "list_all2 (\<lambda>s k. session_sort_key s = Inr k) (sessions file) ks"
    and sorted: "sorted ks"
    by (auto simp: py_mapM_Inr)
  from compute_next_id_fresh [OF valid load_data_keys [OF d ks] sorted new]
  have "JStr new \<notin> set (map ?id (sessions d))" by auto
  then have fresh: "JStr new \<notin> set (map ?id (sessions file))" by (simp add: ids)
  have sid: "py_get session ''id'' = JStr new"
    by (simp add: session py_get_def)
  from fresh sid show "py_get session ''id'' \<notin> set (map ?id (sessions file))" by simp
  from h have "distinct (map ?id (sessions file))" by simp
  with fresh sid have "distinct (map ?id (sessions d @ [session]))"
    by (simp add: ids)
  with py_sort_by_distinct [OF srt, of ?id] show "distinct (map ?id (sessions file'))" by simp
next
  assume h: "update_session file sid u = Inr (file', r) \<and> u ''id'' = None"
  then obtain d where d: "load_data file = Inr d"
    by (cases "load_data file") (auto simp: update_session_def py_bind_def)
  show "map (\<lambda>s. py_get s ''id'') (sessions file') = map (\<lambda>s. py_get s ''id'') (sessions file)"
  proof (cases "update_loop (sessions d) sid u")
    case None
    with h d show ?thesis by (simp add: update_session_def py_bind_def)
  next
    case (Some p)
    obtain ss' s' where p: "p = (ss', s')" by (cases p)
    with h d Some have "sessions file' = ss'"
      by (auto simp: update_session_def py_bind_def)
    with update_loop_ids [of "sessions d" sid u ss' s'] Some p h load_data_ids [OF d]
    show ?thesis by simp
  qed
qed

theorem allocated_id_unique_witness:
  "\<exists>file' session file'' r.
     add_session \<lparr>sessions = [[''id'' \<mapsto> JStr ''I:I''], [''id'' \<mapsto> JStr ''I:II'']], members = JNull\<rparr>
        [''whisky'' \<mapsto> JStr ''Oban 14'', ''host'' \<mapsto> JStr ''brass''] = Inr (file', session) \<and>
     py_get session ''id'' = JStr ''I:III'' \<and>
     JStr ''I:III'' \<notin> set [JStr ''I:I'', JStr ''I:II''] \<and>
     distinct (map (\<lambda>s. py_get s ''id'') (sessions file')) \<and>
     update_session \<lparr>sessions = [[''id'' \<mapsto> JStr ''I:I''], [''id'' \<mapsto> JStr ''I:II'']], members = JNull\<rparr>
        ''I:II'' [''whisky'' \<mapsto> JStr ''Oban 14''] = Inr (file'', r) \<and>
     map (\<lambda>s. py_get s ''id'') (sessions file'') = [JStr ''I:I'', JStr ''I:II'']"
proof -
  let ?F = "\<lparr>sessions = [[''id'' \<mapsto> JStr ''I:I''], [''id'' \<mapsto> JStr ''I:II'']], members = JNull\<rparr>"
  let ?B = "[''whisky'' \<mapsto> JStr ''Oban 14'', ''host'' \<mapsto> JStr ''brass'']"
  let ?U = "[''whisky'' \<mapsto> JStr ''Oban 14'']"
  have "\<exists>f s. add_session ?F ?B = Inr (f, s) \<and> py_get s ''id'' = JStr ''I:III''"
    by (simp add: add_session_def py_bind_def load_data_def load_session_def normalise_host_def
      py_get_def py_sort_by_def session_sort_key_def roman_to_int_def ROMAN_def less_eq_prod_def
      HOST_ALIASES_def py_strip_def py_isspace_def py_lower_def py_lower_char_def
      compute_next_id_def id_has_sep_def int_to_roman_def members_per_round_def)
  then obtain file' session where a: "add_session ?F ?B = Inr (file', session)"
    and i: "py_get session ''id'' = JStr ''I:III''" by blast
  have b: "\<not> truthy (py_get ?B ''id'')" by (simp add: py_get_def)
  have v: "\<forall>s\<in>set (sessions ?F). \<exists>t a b. py_get s ''id'' = JStr t \<and> py_split CHR '':'' t = [a, b] \<and>
        roman_to_int a \<noteq> 0 \<and> roman_to_int b \<noteq> 0"
    by (simp add: py_get_def roman_to_int_def ROMAN_def)
  have k: "\<exists>ks. py_mapM session_sort_key (sessions ?F) = Inr ks \<and> sorted ks"
    by (simp add: py_get_def session_sort_key_def roman_to_int_def ROMAN_def less_eq_prod_def)
  have dd: "distinct (map (\<lambda>s. py_get s ''id'') (sessions ?F))"
    by (simp add: py_get_def)
  from a b v k dd
  have 1: "py_get session ''id'' \<notin> set (map (\<lambda>s. py_get s ''id'') (sessions ?F)) \<and>
      distinct (map (\<lambda>s. py_get s ''id'') (sessions file'))"
    using allocated_id_unique [of ?F ?B file' session] by blast
  have "\<exists>f r. update_session ?F ''I:II'' ?U = Inr (f, r)"
    by (simp add: update_session_def py_bind_def load_data_def load_session_def normalise_host_def
      py_get_def)
  then obtain file'' r where u: "update_session ?F ''I:II'' ?U = Inr (file'', r)" by blast
  have n: "?U ''id'' = None" by simp
  from u n have 2: "map (\<lambda>s. py_get s ''id'') (sessions file'') = map (\<lambda>s. py_get s ''id'') (sessions ?F)"
    using allocated_id_unique [of ?F _ file'' _ "''I:II''" ?U r] by blast
  from a i 1 u 2 show ?thesis
    by (auto simp: py_get_def)
qed

section \<open>Searching: properties\<close>

lemma search_local_inv:
  assumes "search_local ql ss (seen, rs) = Inr (seen', rs')"
    and "set (map (\<lambda>r. py_lower_val (py_get r ''whisky'')) rs) = Inr ` seen"
    and "distinct (map (\<lambda>r. py_lower_val (py_get r ''whisky'')) rs)"
  shows "set (map (\<lambda>r. py_lower_val (py_get r ''whisky'')) rs') = Inr ` seen' \<and>
         distinct (map (\<lambda>r. py_lower_val (py_get r ''whisky'')) rs') \<and>
         (\<exists>new. rs' = rs @ new \<and> (\<forall>r\<in>set new. py_get r ''source'' = JStr ''local'')) \<and>
         seen \<subseteq> seen' \<and>
         (\<forall>s\<in>set ss. \<forall>w. py_get s ''whisky'' = JStr w \<and> py_in_str ql (py_lower w) \<and> w \<noteq> []
            \<longrightarrow> py_lower w \<in> seen')"
  using assms
proof (induction ss arbitrary: seen rs)
  case Nil
  then show ?case by simp
next
  case (Cons s ss)
  let ?key = "\<lambda>r. py_lower_val (py_get r ''whisky'')"
  let ?whisky = "if truthy (py_get s ''whisky'') then py_get s ''whisky'' else JStr []"
  from Cons.prems(1) obtain wl where wl: "py_lower_val ?whisky = Inr wl"
    by (cases "py_lower_val ?whisky") (simp_all add: Let_def)
  let ?r = "[''whisky'' \<mapsto> ?whisky,
             ''region'' \<mapsto> py_get_or s ''region'' (JStr []),
             ''rrp'' \<mapsto> py_get s ''rrp'',
             ''image_url'' \<mapsto> py_get s ''image_url'',
             ''source'' \<mapsto> JStr ''local'']"
  have kr: "?key ?r = Inr wl"
    using wl by (simp add: py_get_def)
  have sr: "py_get ?r ''source'' = JStr ''local''"
    by (simp add: py_get_def)
  have here: "py_lower w = wl" if "py_get s ''whisky'' = JStr w" "w \<noteq> []" for w
    using that wl by (simp add: py_lower_val_def)
  show ?case
  proof (cases "py_in_str ql wl \<and> wl \<notin> seen")
    case True
    with Cons.prems(1) wl
    have rec: "search_local ql ss (insert wl seen, rs @ [?r]) = Inr (seen', rs')"
      by (simp add: Let_def)
    have i1: "set (map ?key (rs @ [?r])) = Inr ` insert wl seen"
      using Cons.prems(2) kr by simp
    have i2: "distinct (map ?key (rs @ [?r]))"
      using Cons.prems(2,3) kr True by auto
    from Cons.IH [OF rec i1 i2]
    have a: "set (map ?key rs') = Inr ` seen'" and b: "distinct (map ?key rs')"
      and c: "\<exists>new. rs' = (rs @ [?r]) @ new \<and> (\<forall>r\<in>set new. py_get r ''source'' = JStr ''local'')"
      and d: "insert wl seen \<subseteq> seen'"
      and e: "\<forall>s\<in>set ss. \<forall>w. py_get s ''whisky'' = JStr w \<and> py_in_str ql (py_lower w) \<and> w \<noteq> []
            \<longrightarrow> py_lower w \<in> seen'"
      by blast+
    from c obtain new where "rs' = rs @ (?r # new)"
      and "\<forall>r\<in>set (?r # new). py_get r ''source'' = JStr ''local''"
      using sr by auto
    then have c': "\<exists>new. rs' = rs @ new \<and> (\<forall>r\<in>set new. py_get r ''source'' = JStr ''local'')"
      by blast
    from d here have f: "\<forall>w. py_get s ''whisky'' = JStr w \<and> py_in_str ql (py_lower w) \<and> w \<noteq> []
            \<longrightarrow> py_lower w \<in> seen'"
      by auto
    from a b c' d e f show ?thesis by auto
  next
    case False
    with Cons.prems(1) wl
    have rec: "search_local ql ss (seen, rs) = Inr (seen', rs')"
      by (simp add: Let_def)
    from Cons.IH [OF rec Cons.prems(2,3)]
    have a: "set (map ?key rs') = Inr ` seen'" and b: "distinct (map ?key rs')"
      and c: "\<exists>new. rs' = rs @ new \<and> (\<forall>r\<in>set new. py_get r ''source'' = JStr ''local'')"
      and d: "seen \<subseteq> seen'"
      and e: "\<forall>s\<in>set ss. \<forall>w. py_get s ''whisky'' = JStr w \<and> py_in_str ql (py_lower w) \<and> w \<noteq> []
            \<longrightarrow> py_lower w \<in> seen'"
      by blast+
    from False d here have f: "\<forall>w. py_get s ''whisky'' = JStr w \<and> py_in_str ql (py_lower w) \<and> w \<noteq> []
            \<longrightarrow> py_lower w \<in> seen'"
      by auto
    from a b c d e f show ?thesis by auto
  qed
qed

lemma search_library_inv:
  assumes "search_library ql es (seen, rs) = Inr (seen', rs')"
    and "set (map (\<lambda>r. py_lower_val (py_get r ''whisky'')) rs) = Inr ` seen"
    and "distinct (map (\<lambda>r. py_lower_val (py_get r ''whisky'')) rs)"
  shows "distinct (map (\<lambda>r. py_lower_val (py_get r ''whisky'')) rs') \<and> (\<exists>new. rs' = rs @ new)"
  using assms
proof (induction es arbitrary: seen rs)
  case Nil
  then show ?case by simp
next
  case (Cons entry es)
  let ?key = "\<lambda>r. py_lower_val (py_get r ''whisky'')"
  let ?whisky = "py_get_or entry ''whisky'' (JStr [])"
  from Cons.prems(1) obtain wl where wl: "py_lower_val ?whisky = Inr wl"
    by (cases "py_lower_val ?whisky") (simp_all add: Let_def)
  let ?r = "[''whisky'' \<mapsto> ?whisky,
             ''region'' \<mapsto> py_get_or entry ''region'' (JStr []),
             ''type'' \<mapsto> py_get_or entry ''type'' (JStr []),
             ''rrp'' \<mapsto> JNull,
             ''image_url'' \<mapsto> JNull,
             ''source'' \<mapsto> JStr ''library'']"
  have kr: "?key ?r = Inr wl"
    using wl by (simp add: py_get_def)
  show ?case
  proof (cases "py_in_str ql wl \<and> wl \<notin> seen")
    case True
    with Cons.prems(1) wl
    have rec: "search_library ql es (insert wl seen, rs @ [?r]) = Inr (seen', rs')"
      by (simp add: Let_def)
    have i1: "set (map ?key (rs @ [?r])) = Inr ` insert wl seen"
      using Cons.prems(2) kr by simp
    have i2: "distinct (map ?key (rs @ [?r]))"
      using Cons.prems(2,3) kr True by auto
    from Cons.IH [OF rec i1 i2] show ?thesis by auto
  next
    case False
    with Cons.prems(1) wl
    have rec: "search_library ql es (seen, rs) = Inr (seen', rs')"
      by (simp add: Let_def)
    from Cons.IH [OF rec Cons.prems(2,3)] show ?thesis .
  qed
qed

lemma count_distinct_key:
  "distinct (map f xs) \<Longrightarrow>
     length (filter (\<lambda>x. f x = v) xs) = (if v \<in> set (map f xs) then 1 else 0)"
  by (induction xs) auto

lemma search_local_total:
  "\<forall>s\<in>set ss. \<not> truthy (py_get s ''whisky'') \<or> (\<exists>w. py_get s ''whisky'' = JStr w) \<Longrightarrow>
     \<exists>acc. search_local ql ss (seen, rs) = Inr acc"
proof (induction ss arbitrary: seen rs)
  case Nil
  then show ?case by simp
next
  case (Cons s ss)
  then have ih: "\<exists>acc. search_local ql ss (seen1, rs1) = Inr acc" for seen1 rs1
    by simp
  let ?whisky = "if truthy (py_get s ''whisky'') then py_get s ''whisky'' else JStr []"
  have "\<exists>wl. py_lower_val ?whisky = Inr wl"
  proof (cases "truthy (py_get s ''whisky'')")
    case True
    with Cons.prems obtain w where "py_get s ''whisky'' = JStr w" by auto
    with True show ?thesis by (simp add: py_lower_val_def)
  next
    case False
    then show ?thesis by (simp add: py_lower_val_def)
  qed
  then obtain wl where wl: "py_lower_val ?whisky = Inr wl" ..
  show ?case
  proof (cases "py_in_str ql wl \<and> wl \<notin> seen")
    case True
    with wl ih show ?thesis by (simp add: Let_def)
  next
    case False
    with wl ih show ?thesis by (simp add: Let_def)
  qed
qed

lemma search_library_total:
  "\<forall>e\<in>set es. \<exists>w. py_get_or e ''whisky'' (JStr []) = JStr w \<Longrightarrow>
     \<exists>acc. search_library ql es (seen, rs) = Inr acc"
proof (induction es arbitrary: seen rs)
  case Nil
  then show ?case by simp
next
  case (Cons e es)
  then have ih: "\<exists>acc. search_library ql es (seen1, rs1) = Inr acc" for seen1 rs1
    by simp
  from Cons.prems obtain wl where wl: "py_lower_val (py_get_or e ''whisky'' (JStr [])) = Inr wl"
    by (auto simp: py_lower_val_def)
  show ?case
  proof (cases "py_in_str ql wl \<and> wl \<notin> seen")
    case True
    with wl ih show ?thesis by (simp add: Let_def)
  next
    case False
    with wl ih show ?thesis by (simp add: Let_def)
  qed
qed

lemma search_whisky_parts:
  assumes "search_whisky file library q_arg = Inr results" and "2 \<le> length (py_strip q_arg)"
  shows "\<exists>d seen1 rl seen2 all. load_data file = Inr d \<and>
           search_local (py_lower (py_strip q_arg)) (sessions d) ({}, []) = Inr (seen1, rl) \<and>
           search_library (py_lower (py_strip q_arg)) library (seen1, rl) = Inr (seen2, all) \<and>
           results = take 10 all"
proof -
  let ?ql = "py_lower (py_strip q_arg)"
  from assms(2) have long: "\<not> (py_strip q_arg = [] \<or> length (py_strip q_arg) < 2)" by auto
  from assms(1) long obtain d where d: "load_data file = Inr d"
    by (cases "load_data file") (auto simp: search_whisky_def py_bind_def Let_def)
  from assms(1) long d obtain acc1 where l: "search_local ?ql (sessions d) ({}, []) = Inr acc1"
    by (cases "search_local ?ql (sessions d) ({}, [])")
      (auto simp: search_whisky_def py_bind_def Let_def)
  from assms(1) long d l obtain acc2 where b: "search_library ?ql library acc1 = Inr acc2"
    by (cases "search_library ?ql library acc1")
      (auto simp: search_whisky_def py_bind_def Let_def)
  obtain seen1 rl where acc1: "acc1 = (seen1, rl)" by (cases acc1)
  obtain seen2 all where acc2: "acc2 = (seen2, all)" by (cases acc2)
  from assms(1) long d l b acc2 have "results = take 10 all"
    by (simp add: search_whisky_def py_bind_def Let_def)
  with d l b acc1 acc2 show ?thesis by blast
qed

lemma py_in_str_empty: "py_in_str q [] \<Longrightarrow> q = []"
  by simp

text \<open>
  Claim C6, as stated, fails in two ways. A query of one character matches the name in the
  sessions and in the library, and the result is empty. With eleven distinct matching
  names in the sessions, the eleventh also in the library, the ten results are the first
  ten names and none of them is the eleventh.
\<close>

theorem search_whisky_no_result:
  "py_in_str (py_lower ''t'') (py_lower ''Talisker 10'') \<and>
   py_in_str (py_lower ''t'') (py_lower ''talisker 10'') \<and>
   search_whisky \<lparr>sessions = [[''whisky'' \<mapsto> JStr ''Talisker 10'']], members = JNull\<rparr>
     [[''whisky'' \<mapsto> JStr ''talisker 10'']] ''t'' = Inr [] \<and>
   py_in_str (py_lower ''ab'') (py_lower ''abk'') \<and>
   py_in_str (py_lower ''ab'') (py_lower ''ABK'') \<and>
   (\<exists>results.
      search_whisky
        \<lparr>sessions = [[''whisky'' \<mapsto> JStr ''aba''], [''whisky'' \<mapsto> JStr ''abb''],
                     [''whisky'' \<mapsto> JStr ''abc''], [''whisky'' \<mapsto> JStr ''abd''],
                     [''whisky'' \<mapsto> JStr ''abe''], [''whisky'' \<mapsto> JStr ''abf''],
                     [''whisky'' \<mapsto> JStr ''abg''], [''whisky'' \<mapsto> JStr ''abh''],
                     [''whisky'' \<mapsto> JStr ''abi''], [''whisky'' \<mapsto> JStr ''abj''],
                     [''whisky'' \<mapsto> JStr ''abk'']],
         members = JNull\<rparr>
        [[''whisky'' \<mapsto> JStr ''ABK'']] ''ab'' = Inr results \<and>
      map (\<lambda>r. py_get r ''whisky'') results =
        [JStr ''aba'', JStr ''abb'', JStr ''abc'', JStr ''abd'', JStr ''abe'', JStr ''abf'',
         JStr ''abg'', JStr ''abh'', JStr ''abi'', JStr ''abj''])"
  by (simp add: search_whisky_def py_bind_def load_data_def load_session_def normalise_host_def
      py_get_def py_get_or_def py_strip_def py_isspace_def py_lower_def py_lower_char_def
      py_lower_val_def char_of_def bit_Suc_0_iff)

text \<open>
  Claim C6, amended. Let the trimmed query have at least two characters and let it occur,
  lower-cased, in the lower-cased whisky name of a stored session. Then, whatever the
  library holds, the results have at most one entry whose lower-cased name is that name,
  and every such entry has the source \<^verbatim>\<open>local\<close>: there is exactly one, unless the limit
  of ten results has cut it off, and then there are ten results and none for the name.
  The search returns when the file loads, the whisky of every session is a string or a
  false value, and the whisky of every library entry is a string or missing.
\<close>

theorem search_whisky_dedup:
  "(search_whisky file library q_arg = Inr results \<and> 2 \<le> length (py_strip q_arg) \<and>
    s \<in> set (sessions file) \<and> py_get s ''whisky'' = JStr w \<and>
    py_in_str (py_lower (py_strip q_arg)) (py_lower w) \<longrightarrow>
      (length (filter (\<lambda>r. py_lower_val (py_get r ''whisky'') = Inr (py_lower w)) results) = 1 \<or>
       length (filter (\<lambda>r. py_lower_val (py_get r ''whisky'') = Inr (py_lower w)) results) = 0 \<and>
       length results = 10) \<and>
      (\<forall>r\<in>set results. py_lower_val (py_get r ''whisky'') = Inr (py_lower w) \<longrightarrow>
         py_get r ''source'' = JStr ''local'')) \<and>
   ((\<exists>d. load_data file = Inr d) \<and>
    (\<forall>s\<in>set (sessions file). \<not> truthy (py_get s ''whisky'') \<or> (\<exists>w. py_get s ''whisky'' = JStr w)) \<and>
    (\<forall>e\<in>set library. \<exists>w. py_get_or e ''whisky'' (JStr []) = JStr w) \<longrightarrow>
      (\<exists>results. search_whisky file library q_arg = Inr results))"
proof (intro conjI impI)
  assume h: "search_whisky file library q_arg = Inr results \<and> 2 \<le> length (py_strip q_arg) \<and>
    s \<in> set (sessions file) \<and> py_get s ''whisky'' = JStr w \<and>
    py_in_str (py_lower (py_strip q_arg)) (py_lower w)"
  let ?ql = "py_lower (py_strip q_arg)"
  let ?key = "\<lambda>r. py_lower_val (py_get r ''whisky'')"
  let ?k = "Inr (py_lower w) :: py_error + string"
  from h search_whisky_parts [of "file" library q_arg results]
  obtain d seen1 rl seen2 all where d: "load_data file = Inr d"
    and l: "search_local ?ql (sessions d) ({}, []) = Inr (seen1, rl)"
    and b: "search_library ?ql library (seen1, rl) = Inr (seen2, all)"
    and res: "results = take 10 all"
    by blast
  from h have "?ql \<noteq> []" by (auto simp: py_lower_def)
  with h have w: "w \<noteq> []" by (auto simp: py_lower_def)
  from h obtain j where j: "j < length (sessions file)" "s = sessions file ! j"
    by (auto simp: in_set_conv_nth)
  let ?s' = "sessions d ! j"
  from load_data_nth [OF d] j have s': "?s' \<in> set (sessions d)"
    and "load_session s = Inr ?s'" by auto
  with h have ws': "py_get ?s' ''whisky'' = JStr w"
    by (simp add: load_session_id)
  from search_local_inv [OF l] have inv1: "set (map ?key rl) = Inr ` seen1"
    and inv2: "distinct (map ?key rl)"
    and loc: "\<exists>new. rl = [] @ new \<and> (\<forall>r\<in>set new. py_get r ''source'' = JStr ''local'')"
    and cmpl: "\<forall>s\<in>set (sessions d). \<forall>w. py_get s ''whisky'' = JStr w \<and> py_in_str ?ql (py_lower w) \<and> w \<noteq> []
            \<longrightarrow> py_lower w \<in> seen1"
    by simp_all
  from cmpl s' ws' h w have "py_lower w \<in> seen1" by blast
  with inv1 have inl: "?k \<in> set (map ?key rl)" by simp
  from search_library_inv [OF b inv1 inv2] obtain new where dall: "distinct (map ?key all)"
    and all: "all = rl @ new" by blast
  from dall have "distinct (take 10 (map ?key all))" by (rule distinct_take)
  then have dres: "distinct (map ?key results)" by (simp add: res take_map)
  from inl all have inall: "?k \<in> set (map ?key all)" by auto
  show "length (filter (\<lambda>r. ?key r = ?k) results) = 1 \<or>
       length (filter (\<lambda>r. ?key r = ?k) results) = 0 \<and> length results = 10"
  proof (cases "?k \<in> set (map ?key results)")
    case True
    with count_distinct_key [OF dres, of ?k] show ?thesis by simp
  next
    case False
    with inall res have "results \<noteq> all" by auto
    with res have "length results = 10" by (cases "length all \<le> 10") auto
    with False count_distinct_key [OF dres, of ?k] show ?thesis by simp
  qed
  show "\<forall>r\<in>set results. ?key r = ?k \<longrightarrow> py_get r ''source'' = JStr ''local''"
  proof (intro ballI impI)
    fix r assume r: "r \<in> set results" and kr: "?key r = ?k"
    from r res have "r \<in> set all" by (auto dest: in_set_takeD)
    with all have "r \<in> set rl \<or> r \<in> set new" by auto
    moreover have "r \<notin> set new"
    proof
      assume "r \<in> set new"
      with kr have "?k \<in> set (map ?key new)" by force
      with inl dall all show False by auto
    qed
    ultimately have "r \<in> set rl" by simp
    with loc show "py_get r ''source'' = JStr ''local''" by simp
  qed
next
  assume h: "(\<exists>d. load_data file = Inr d) \<and>
    (\<forall>s\<in>set (sessions file). \<not> truthy (py_get s ''whisky'') \<or> (\<exists>w. py_get s ''whisky'' = JStr w)) \<and>
    (\<forall>e\<in>set library. \<exists>w. py_get_or e ''whisky'' (JStr []) = JStr w)"
  then obtain d where d: "load_data file = Inr d" by blast
  let ?ql = "py_lower (py_strip q_arg)"
  have "\<forall>s'\<in>set (sessions d). \<not> truthy (py_get s' ''whisky'') \<or> (\<exists>w. py_get s' ''whisky'' = JStr w)"
  proof
    fix s' assume "s' \<in> set (sessions d)"
    then obtain j where j: "j < length (sessions d)" "s' = sessions d ! j"
      by (auto simp: in_set_conv_nth)
    with load_data_nth [OF d] have "load_session (sessions file ! j) = Inr s'"
      and "j < length (sessions file)" by auto
    with h show "\<not> truthy (py_get s' ''whisky'') \<or> (\<exists>w. py_get s' ''whisky'' = JStr w)"
      by (simp add: load_session_id)
  qed
  from search_local_total [OF this, of ?ql "{}" "[]"]
  obtain acc1 where l: "search_local ?ql (sessions d) ({}, []) = Inr acc1" by blast
  obtain seen1 rl where acc1: "acc1 = (seen1, rl)" by (cases acc1)
  from h have "\<forall>e\<in>set library. \<exists>w. py_get_or e ''whisky'' (JStr []) = JStr w" by simp
  from search_library_total [OF this, of ?ql seen1 rl]
  obtain acc2 where b: "search_library ?ql library (seen1, rl) = Inr acc2" by blast
  obtain seen2 all where acc2: "acc2 = (seen2, all)" by (cases acc2)
  from d l b acc1 acc2 show "\<exists>results. search_whisky file library q_arg = Inr results"
    by (simp add: search_whisky_def py_bind_def Let_def)
qed

theorem search_whisky_dedup_witness:
  "\<exists>results.
     search_whisky
       \<lparr>sessions = [[''whisky'' \<mapsto> JStr ''Talisker 10'', ''region'' \<mapsto> JStr ''Skye''],
                    [''whisky'' \<mapsto> JStr ''Oban 14'']],
        members = JNull\<rparr>
       [[''whisky'' \<mapsto> JStr ''TALISKER 10''], [''whisky'' \<mapsto> JStr ''Talisker Storm'']]
       '' talisker '' = Inr results \<and>
     py_lower ''TALISKER 10'' = py_lower ''Talisker 10'' \<and>
     length (filter (\<lambda>r. py_lower_val (py_get r ''whisky'') = Inr (py_lower ''Talisker 10'')) results) = 1 \<and>
     list_all (\<lambda>r. py_get r ''source'' = JStr ''local'' \<or>
                  py_lower_val (py_get r ''whisky'') \<noteq> Inr (py_lower ''Talisker 10'')) results \<and>
     length results = 2"
proof -
  let ?s = "[''whisky'' \<mapsto> JStr ''Talisker 10'', ''region'' \<mapsto> JStr ''Skye'']"
  let ?F = "\<lparr>sessions = [?s, [''whisky'' \<mapsto> JStr ''Oban 14'']], members = JNull\<rparr>"
  let ?L = "[[''whisky'' \<mapsto> JStr ''TALISKER 10''], [''whisky'' \<mapsto> JStr ''Talisker Storm'']]"
  let ?q = "'' talisker ''"
  note ev = py_get_def py_get_or_def py_strip_def py_isspace_def py_lower_def py_lower_char_def
    py_lower_val_def char_of_def bit_Suc_0_iff
  have l: "\<exists>d. load_data ?F = Inr d"
    by (simp add: load_data_def load_session_def normalise_host_def py_get_def)
  have t: "\<forall>s\<in>set (sessions ?F). \<not> truthy (py_get s ''whisky'') \<or> (\<exists>w. py_get s ''whisky'' = JStr w)"
    by (simp add: py_get_def)
  have e: "\<forall>e\<in>set ?L. \<exists>w. py_get_or e ''whisky'' (JStr []) = JStr w"
    by (simp add: py_get_or_def)
  from l t e obtain results where r: "search_whisky ?F ?L ?q = Inr results"
    using search_whisky_dedup [of ?F ?L ?q] by blast
  have q: "2 \<le> length (py_strip ?q)" by (simp add: ev)
  have m: "?s \<in> set (sessions ?F)" by simp
  have w: "py_get ?s ''whisky'' = JStr ''Talisker 10''" by (simp add: py_get_def)
  have i: "py_in_str (py_lower (py_strip ?q)) (py_lower ''Talisker 10'')" by (simp add: ev)
  from r q m w i
  have c: "(length (filter (\<lambda>r. py_lower_val (py_get r ''whisky'') = Inr (py_lower ''Talisker 10'')) results) = 1 \<or>
       length (filter (\<lambda>r. py_lower_val (py_get r ''whisky'') = Inr (py_lower ''Talisker 10'')) results) = 0 \<and>
       length results = 10) \<and>
      (\<forall>r\<in>set results. py_lower_val (py_get r ''whisky'') = Inr (py_lower ''Talisker 10'') \<longrightarrow>
         py_get r ''source'' = JStr ''local'')"
    using search_whisky_dedup [of ?F ?L ?q results ?s "''Talisker 10''"] by blast
  have "\<exists>rs. search_whisky ?F ?L ?q = Inr rs \<and> length rs = 2"
    by (simp add: search_whisky_def py_bind_def load_data_def load_session_def normalise_host_def ev)
  with r have n: "length results = 2" by auto
  have p: "py_lower ''TALISKER 10'' = py_lower ''Talisker 10''" by (simp add: ev)
  from c n have c1: "length (filter (\<lambda>r. py_lower_val (py_get r ''whisky'') = Inr (py_lower ''Talisker 10'')) results) = 1"
    by auto
  from c have c2: "list_all (\<lambda>r. py_get r ''source'' = JStr ''local'' \<or>
                  py_lower_val (py_get r ''whisky'') \<noteq> Inr (py_lower ''Talisker 10'')) results"
    by (auto simp: list_all_iff)
  from r p c1 c2 n show ?thesis by blast
qed

end
